theory Spec2Isabelle
  imports Main "HOL-Library.Multiset"
begin

section \<open>Errors, size arithmetic and actions on a state\<close>

text \<open>
  The list and the sorting functions fail in two ways. The checked accesses throw
  \<^verbatim>\<open>std::runtime_error\<close> with the message
  \<^verbatim>\<open>ERROR: Index <i> is out of bounds of the list of size <n>.\<close> (List.h) or
  \<^verbatim>\<open>... of the collection of size <n>.\<close> (Collection.h); the error value keeps
  the two numbers of the message. Dereferencing a null or a deleted pointer is undefined
  behaviour in C++; the model stops there with \<open>Undefined\<close>.
\<close>

datatype error =
    OutOfBounds nat nat
  | CollectionOutOfBounds nat nat
  | Undefined

text \<open>
  \<^verbatim>\<open>size_t\<close> is taken to be 64 bits wide. Sizes and indices are natural numbers
  below \<open>2 ^ 64\<close>; a subtraction that the source does not guard wraps around.
\<close>

definition SIZE_MAX :: nat where
  "SIZE_MAX = 2 ^ 64 - 1"

definition size_sub :: "nat \<Rightarrow> nat \<Rightarrow> nat" where
  "size_sub a b = (if b \<le> a then a - b else a + 2 ^ 64 - b)"

text \<open>
  A member function that can change the object and can throw maps the state to an
  outcome and the state it leaves behind, which is still there after a throw.
\<close>

type_synonym ('s, 'r) action = "'s \<Rightarrow> (error + 'r) \<times> 's"

definition ret :: "'r \<Rightarrow> ('s, 'r) action" where
  "ret x s = (Inr x, s)"

definition throw :: "error \<Rightarrow> ('s, 'r) action" where
  "throw e s = (Inl e, s)"

definition seq :: "('s, 'a) action \<Rightarrow> ('a \<Rightarrow> ('s, 'b) action) \<Rightarrow> ('s, 'b) action" where
  "seq m f s = (case m s of (Inl e, s') \<Rightarrow> (Inl e, s') | (Inr x, s') \<Rightarrow> f x s')"

text \<open>A computation that only reads the state.\<close>

definition rd :: "('s \<Rightarrow> error + 'r) \<Rightarrow> ('s, 'r) action" where
  "rd f s = (f s, s)"

lemma seq_cong [fundef_cong]:
  assumes "m s = m' s'"
    and "\<And>x t. m' s' = (Inr x, t) \<Longrightarrow> f x t = f' x t"
  shows "seq m f s = seq m' f' s'"
  using assms by (auto simp: seq_def split: prod.splits sum.splits)

section \<open>List.h: nodes and the free store\<close>

type_synonym addr = nat

text \<open>
  \<^verbatim>\<open>struct Node { Node* previous; Type* data; Node* next; }\<close>. A pointer is an
  address or null (\<open>None\<close>). The field \<^verbatim>\<open>next\<close> is written \<open>nxt\<close>.
\<close>

record Node =
  previous :: "addr option"
  data :: "addr option"
  nxt :: "addr option"

text \<open>
  \<^verbatim>\<open>class List { size_t size; Node* head; Node* tail; Node NIL; }\<close> together with
  the part of the free store the list allocates from: the nodes and the elements
  (\<^verbatim>\<open>new Node\<close>, \<^verbatim>\<open>new Type(Value)\<close>) by address, and the next address
  \<^verbatim>\<open>new\<close> hands out. The field \<^verbatim>\<open>size\<close> is written \<open>lsize\<close>. \<^verbatim>\<open>NIL\<close>
  never changes after construction and is the constant \<open>NIL\<close> below.
\<close>

record 'a LinkedList =
  lsize :: nat
  head :: "addr option"
  tail :: "addr option"
  nodes :: "addr \<rightharpoonup> Node"
  cells :: "addr \<rightharpoonup> 'a"
  brk :: addr

text \<open>\<^verbatim>\<open>Node(std::nullptr_t)\<close> and \<^verbatim>\<open>operator=(std::nullptr_t)\<close>.\<close>

definition NIL :: Node where
  "NIL = \<lparr>previous = None, data = None, nxt = None\<rparr>"

text \<open>\<^verbatim>\<open>*p\<close> for a node pointer, and \<^verbatim>\<open>p->field\<close>.\<close>

definition node_at :: "'a LinkedList \<Rightarrow> addr option \<Rightarrow> error + Node" where
  "node_at L p =
     (case p of None \<Rightarrow> Inl Undefined
      | Some a \<Rightarrow> (case nodes L a of None \<Rightarrow> Inl Undefined | Some n \<Rightarrow> Inr n))"

definition arrow :: "(Node \<Rightarrow> 'b) \<Rightarrow> addr option \<Rightarrow> 'a LinkedList \<Rightarrow> error + 'b" where
  "arrow f p L = (case node_at L p of Inl e \<Rightarrow> Inl e | Inr n \<Rightarrow> Inr (f n))"

text \<open>\<^verbatim>\<open>p->field = v\<close>.\<close>

definition assign_node :: "addr option \<Rightarrow> (Node \<Rightarrow> Node) \<Rightarrow> ('a LinkedList, unit) action" where
  "assign_node p upd L =
     (case p of None \<Rightarrow> (Inl Undefined, L)
      | Some a \<Rightarrow>
          (case nodes L a of None \<Rightarrow> (Inl Undefined, L)
           | Some n \<Rightarrow> (Inr (), L\<lparr>nodes := (nodes L)(a \<mapsto> upd n)\<rparr>)))"

text \<open>Reading and writing an element through a reference \<^verbatim>\<open>Type&\<close>.\<close>

definition load :: "'a LinkedList \<Rightarrow> addr \<Rightarrow> error + 'a" where
  "load L r = (case cells L r of None \<Rightarrow> Inl Undefined | Some v \<Rightarrow> Inr v)"

definition store :: "addr \<Rightarrow> 'a \<Rightarrow> ('a LinkedList, unit) action" where
  "store r v L =
     (case cells L r of None \<Rightarrow> (Inl Undefined, L)
      | Some old \<Rightarrow> (Inr (), L\<lparr>cells := (cells L)(r \<mapsto> v)\<rparr>))"

text \<open>
  \<^verbatim>\<open>new Node(Value, Previous, Next)\<close>: the constructor allocates the element
  (\<^verbatim>\<open>data(new Type(Value))\<close>), then the node itself is placed.
\<close>

definition new_Node ::
  "'a \<Rightarrow> addr option \<Rightarrow> addr option \<Rightarrow> 'a LinkedList \<Rightarrow> addr \<times> 'a LinkedList" where
  "new_Node Value Previous Next L =
     (let d = brk L; p = brk L + 1
      in (p, L\<lparr>nodes := (nodes L)(p \<mapsto> \<lparr>previous = Previous, data = Some d, nxt = Next\<rparr>),
               cells := (cells L)(d \<mapsto> Value),
               brk := brk L + 2\<rparr>))"

text \<open>\<^verbatim>\<open>delete p\<close>: nothing for a null pointer, undefined for a block not allocated.\<close>

definition delete_cell :: "addr option \<Rightarrow> ('a LinkedList, unit) action" where
  "delete_cell p L =
     (case p of None \<Rightarrow> (Inr (), L)
      | Some a \<Rightarrow>
          (case cells L a of None \<Rightarrow> (Inl Undefined, L)
           | Some v \<Rightarrow> (Inr (), L\<lparr>cells := (cells L)(a := None)\<rparr>)))"

definition delete_node :: "addr option \<Rightarrow> ('a LinkedList, unit) action" where
  "delete_node p L =
     (case p of None \<Rightarrow> (Inr (), L)
      | Some a \<Rightarrow>
          (case nodes L a of None \<Rightarrow> (Inl Undefined, L)
           | Some n \<Rightarrow> (Inr (), L\<lparr>nodes := (nodes L)(a := None)\<rparr>)))"

subsection \<open>Node operators\<close>

text \<open>\<^verbatim>\<open>Type& operator*()\<close>: \<^verbatim>\<open>return *data;\<close>, a reference to the element.\<close>

definition Node_deref :: "Node \<Rightarrow> error + addr" where
  "Node_deref n = (case data n of None \<Rightarrow> Inl Undefined | Some d \<Rightarrow> Inr d)"

text \<open>\<^verbatim>\<open>operator==\<close> compares the data pointers.\<close>

definition Node_eq :: "Node \<Rightarrow> Node \<Rightarrow> bool" where
  "Node_eq a b = (data a = data b)"

text \<open>
  \<^verbatim>\<open>operator++()\<close> and \<^verbatim>\<open>operator--()\<close> overwrite the node object they are
  called on with a copy of its neighbour, or with null.
\<close>

definition Node_inc :: "'a LinkedList \<Rightarrow> Node \<Rightarrow> error + Node" where
  "Node_inc L n = (if nxt n = None then Inr NIL else node_at L (nxt n))"

definition Node_dec :: "'a LinkedList \<Rightarrow> Node \<Rightarrow> error + Node" where
  "Node_dec L n = (if previous n = None then Inr NIL else node_at L (previous n))"

text \<open>
  \<^verbatim>\<open>operator+=\<close> and \<^verbatim>\<open>operator-=\<close> on \<^verbatim>\<open>ptrdiff_t Count\<close>: one loop runs
  while \<open>Count > 0\<close>, the other while \<open>Count < 0\<close>.
\<close>

function Node_add_assign :: "'a LinkedList \<Rightarrow> Node \<Rightarrow> int \<Rightarrow> error + Node" where
  "Node_add_assign L n Count =
     (if Count > 0 then
        (case Node_inc L n of Inl e \<Rightarrow> Inl e
         | Inr n' \<Rightarrow> Node_add_assign L n' (Count - 1))
      else if Count < 0 then
        (case Node_dec L n of Inl e \<Rightarrow> Inl e
         | Inr n' \<Rightarrow> Node_add_assign L n' (Count + 1))
      else Inr n)"
  by pat_completeness auto
termination
  by (relation "measure (\<lambda>(L, n, Count). nat \<bar>Count\<bar>)") auto

declare Node_add_assign.simps [simp del]

function Node_sub_assign :: "'a LinkedList \<Rightarrow> Node \<Rightarrow> int \<Rightarrow> error + Node" where
  "Node_sub_assign L n Count =
     (if Count > 0 then
        (case Node_dec L n of Inl e \<Rightarrow> Inl e
         | Inr n' \<Rightarrow> Node_sub_assign L n' (Count - 1))
      else if Count < 0 then
        (case Node_inc L n of Inl e \<Rightarrow> Inl e
         | Inr n' \<Rightarrow> Node_sub_assign L n' (Count + 1))
      else Inr n)"
  by pat_completeness auto
termination
  by (relation "measure (\<lambda>(L, n, Count). nat \<bar>Count\<bar>)") auto

declare Node_sub_assign.simps [simp del]

text \<open>
  \<^verbatim>\<open>Node& operator+(const ptrdiff_t Count)\<close> on the node stored at \<open>this\<close>:
  \<^verbatim>\<open>if (Count == 0) return *this; Node Copy = *this; Copy += Count - 1; return *Copy.next;\<close>
  The result is a reference to a node of the store, that is, its address.
\<close>

definition Node_plus :: "'a LinkedList \<Rightarrow> addr \<Rightarrow> int \<Rightarrow> error + addr" where
  "Node_plus L this Count =
     (if Count = 0 then Inr this
      else
        (case node_at L (Some this) of Inl e \<Rightarrow> Inl e
         | Inr Copy \<Rightarrow>
             (case Node_add_assign L Copy (Count - 1) of Inl e \<Rightarrow> Inl e
              | Inr Copy' \<Rightarrow>
                  (case nxt Copy' of None \<Rightarrow> Inl Undefined | Some q \<Rightarrow> Inr q))))"

text \<open>
  \<^verbatim>\<open>Node& operator-(const ptrdiff_t Count)\<close>:
  \<^verbatim>\<open>if (Count == 0) return *this; Node Copy = *this; Copy -= Count + 1; return *Copy.previous;\<close>
\<close>

definition Node_minus :: "'a LinkedList \<Rightarrow> addr \<Rightarrow> int \<Rightarrow> error + addr" where
  "Node_minus L this Count =
     (if Count = 0 then Inr this
      else
        (case node_at L (Some this) of Inl e \<Rightarrow> Inl e
         | Inr Copy \<Rightarrow>
             (case Node_sub_assign L Copy (Count + 1) of Inl e \<Rightarrow> Inl e
              | Inr Copy' \<Rightarrow>
                  (case previous Copy' of None \<Rightarrow> Inl Undefined | Some q \<Rightarrow> Inr q))))"

subsection \<open>Getters\<close>

definition List_Size :: "'a LinkedList \<Rightarrow> nat" where
  "List_Size L = lsize L"

definition IsValidIndex :: "'a LinkedList \<Rightarrow> nat \<Rightarrow> bool" where
  "IsValidIndex L Index = (Index < lsize L)"

definition IsEmpty :: "'a LinkedList \<Rightarrow> bool" where
  "IsEmpty L = (lsize L = 0)"

text \<open>
  \<^verbatim>\<open>Node& Traverse(const size_t Index)\<close>. Past the check \<open>Index < size\<close>, so
  \<^verbatim>\<open>size - Index - 1\<close> does not wrap.
\<close>

definition Traverse :: "'a LinkedList \<Rightarrow> nat \<Rightarrow> error + addr" where
  "Traverse L Index =
     (if \<not> IsValidIndex L Index then Inl (OutOfBounds Index (lsize L))
      else if Index > lsize L div 2 then
        (case tail L of None \<Rightarrow> Inl Undefined
         | Some t \<Rightarrow> Node_minus L t (int (lsize L - Index - 1)))
      else
        (case head L of None \<Rightarrow> Inl Undefined
         | Some h \<Rightarrow> Node_plus L h (int Index)))"

text \<open>
  \<^verbatim>\<open>Type& operator[](size_t Index)\<close>: the check, then \<^verbatim>\<open>return *Traverse(Index);\<close>.
  The result is the reference to the element.
\<close>

definition subscript :: "'a LinkedList \<Rightarrow> nat \<Rightarrow> error + addr" where
  "subscript L Index =
     (if \<not> IsValidIndex L Index then Inl (OutOfBounds Index (lsize L))
      else
        (case Traverse L Index of Inl e \<Rightarrow> Inl e
         | Inr p \<Rightarrow>
             (case node_at L (Some p) of Inl e \<Rightarrow> Inl e | Inr n \<Rightarrow> Node_deref n)))"

definition Get :: "'a LinkedList \<Rightarrow> nat \<Rightarrow> error + addr" where
  "Get L Index = subscript L Index"

definition Front :: "'a LinkedList \<Rightarrow> error + addr" where
  "Front L = subscript L 0"

definition Back :: "'a LinkedList \<Rightarrow> error + addr" where
  "Back L = subscript L (size_sub (lsize L) 1)"

text \<open>The value a caller reads through the reference that \<open>Get\<close> returns.\<close>

definition Get_value :: "'a LinkedList \<Rightarrow> nat \<Rightarrow> error + 'a" where
  "Get_value L Index = (case Get L Index of Inl e \<Rightarrow> Inl e | Inr r \<Rightarrow> load L r)"

subsection \<open>Expansion\<close>

text \<open>\<^verbatim>\<open>Type& Insert(const size_t Index, const Type& Value)\<close>.\<close>

definition Insert :: "nat \<Rightarrow> 'a \<Rightarrow> ('a LinkedList, addr) action" where
  "Insert Index Value L =
     (if Index > lsize L then throw (OutOfBounds Index (lsize L)) L
      else if Index = lsize L then
        (if IsEmpty L then
           (let (p, L1) = new_Node Value None None L;
                L2 = L1\<lparr>head := Some p\<rparr>;
                L3 = L2\<lparr>tail := head L2\<rparr>;
                L4 = L3\<lparr>lsize := lsize L3 + 1\<rparr>
            in rd (\<lambda>s. case node_at s (head s) of Inl e \<Rightarrow> Inl e | Inr n \<Rightarrow> Node_deref n) L4)
         else
           (let (p, L1) = new_Node Value (tail L) None L
            in seq (assign_node (tail L1) (\<lambda>n. n\<lparr>nxt := Some p\<rparr>))
                 (\<lambda>_. seq (rd (arrow nxt (tail L1)))
                 (\<lambda>t s. let s1 = s\<lparr>tail := t\<rparr>; s2 = s1\<lparr>lsize := lsize s1 + 1\<rparr>
                        in rd (\<lambda>s. case node_at s (tail s) of Inl e \<Rightarrow> Inl e
                                    | Inr n \<Rightarrow> Node_deref n) s2)) L1))
      else
        seq (rd (\<lambda>s. Traverse s Index))
          (\<lambda>Next. seq (rd (arrow previous (Some Next)))
          (\<lambda>Next_previous s.
             let (New, s1) = new_Node Value Next_previous (Some Next) s
             in seq (if Next_previous \<noteq> None
                     then assign_node Next_previous (\<lambda>n. n\<lparr>nxt := Some New\<rparr>)
                     else (\<lambda>s. (Inr (), s\<lparr>head := Some New\<rparr>)))
                  (\<lambda>_. seq (assign_node (Some Next) (\<lambda>n. n\<lparr>previous := Some New\<rparr>))
                  (\<lambda>_ s. let s2 = s\<lparr>lsize := lsize s + 1\<rparr>
                         in rd (\<lambda>s. case arrow data (Some New) s of Inl e \<Rightarrow> Inl e
                                     | Inr None \<Rightarrow> Inl Undefined
                                     | Inr (Some d) \<Rightarrow> Inr d) s2)) s1)) L)"

definition PushFront :: "'a \<Rightarrow> ('a LinkedList, addr) action" where
  "PushFront Value L = Insert 0 Value L"

definition PushBack :: "'a \<Rightarrow> ('a LinkedList, addr) action" where
  "PushBack Value L = Insert (lsize L) Value L"

subsection \<open>Constructors\<close>

text \<open>\<^verbatim>\<open>List() : size(0), head(nullptr), tail(nullptr), NIL(nullptr)\<close>, on an empty store.\<close>

definition List_empty :: "'a LinkedList" where
  "List_empty = \<lparr>lsize = 0, head = None, tail = None, nodes = Map.empty, cells = Map.empty, brk = 0\<rparr>"

text \<open>The initializer list constructor pushes the elements back one by one.\<close>

fun PushBack_all :: "'a list \<Rightarrow> ('a LinkedList, unit) action" where
  "PushBack_all [] L = (Inr (), L)"
| "PushBack_all (x # xs) L =
     (case PushBack x L of (Inl e, L') \<Rightarrow> (Inl e, L') | (Inr r, L') \<Rightarrow> PushBack_all xs L')"

definition List_of :: "'a list \<Rightarrow> 'a LinkedList" where
  "List_of xs = snd (PushBack_all xs List_empty)"

subsection \<open>Iteration and search\<close>

text \<open>
  \<^verbatim>\<open>begin()\<close> returns \<^verbatim>\<open>NIL\<close> or \<^verbatim>\<open>*head\<close>, \<^verbatim>\<open>end()\<close> returns \<^verbatim>\<open>NIL\<close>. A
  range-based \<^verbatim>\<open>for (auto& Element : *this)\<close> copies both into node objects of its
  own, compares them with \<^verbatim>\<open>operator!=\<close>, reads \<^verbatim>\<open>*it\<close> and advances with
  \<^verbatim>\<open>operator++\<close>. The loops below follow pointers for as long as the store says; on
  a store where that never ends they do not return (the value \<open>None\<close>).
\<close>

definition List_begin :: "'a LinkedList \<Rightarrow> error + Node" where
  "List_begin L = (if head L = None then Inr NIL else node_at L (head L))"

definition List_end :: "'a LinkedList \<Rightarrow> Node" where
  "List_end L = NIL"

partial_function (option) Find_loop ::
  "'a LinkedList \<Rightarrow> 'a \<Rightarrow> Node \<Rightarrow> int \<Rightarrow> (error + int) option" where
  "Find_loop L Value it Index =
     (if \<not> Node_eq it (List_end L) then
        (case Node_deref it of Inl e \<Rightarrow> Some (Inl e)
         | Inr r \<Rightarrow>
             (case load L r of Inl e \<Rightarrow> Some (Inl e)
              | Inr Element \<Rightarrow>
                  if Value = Element then Some (Inr Index)
                  else
                    (case Node_inc L it of Inl e \<Rightarrow> Some (Inl e)
                     | Inr it' \<Rightarrow> Find_loop L Value it' (Index + 1))))
      else Some (Inr (- 1)))"

declare Find_loop.simps [code]

definition Find :: "'a LinkedList \<Rightarrow> 'a \<Rightarrow> (error + int) option" where
  "Find L Value =
     (case List_begin L of Inl e \<Rightarrow> Some (Inl e) | Inr it \<Rightarrow> Find_loop L Value it 0)"




definition Contains :: "'a LinkedList \<Rightarrow> 'a \<Rightarrow> (error + bool) option" where
  "Contains L Value =
     (case Find L Value of None \<Rightarrow> None
      | Some (Inl e) \<Rightarrow> Some (Inl e)
      | Some (Inr i) \<Rightarrow> Some (Inr (i \<noteq> - 1)))"




subsection \<open>Setters\<close>

text \<open>\<^verbatim>\<open>(*this)[Index] = Value;\<close>\<close>

definition List_Set :: "nat \<Rightarrow> 'a \<Rightarrow> ('a LinkedList, unit) action" where
  "List_Set Index Value L = seq (rd (\<lambda>s. subscript s Index)) (\<lambda>r. store r Value) L"

text \<open>\<^verbatim>\<open>**p\<close> for a node pointer: the reference to the node's element.\<close>

definition element_ref :: "'a LinkedList \<Rightarrow> addr \<Rightarrow> error + addr" where
  "element_ref L p = (case node_at L (Some p) of Inl e \<Rightarrow> Inl e | Inr n \<Rightarrow> Node_deref n)"

text \<open>
  \<^verbatim>\<open>void Swap(const size_t Left, const size_t Right)\<close>; the parameters are written
  \<open>Lft\<close> and \<open>Rgt\<close>.
\<close>

definition Swap :: "nat \<Rightarrow> nat \<Rightarrow> ('a LinkedList, unit) action" where
  "Swap Lft Rgt L =
     (if \<not> IsValidIndex L Lft then throw (OutOfBounds Lft (lsize L)) L
      else if \<not> IsValidIndex L Rgt then throw (OutOfBounds Rgt (lsize L)) L
      else
        seq (rd (\<lambda>s. Traverse s Lft))
          (\<lambda>LeftNode. seq (rd (\<lambda>s. Traverse s Rgt))
          (\<lambda>RightNode. seq (rd (\<lambda>s. case element_ref s LeftNode of Inl e \<Rightarrow> Inl e
                                       | Inr r \<Rightarrow> load s r))
          (\<lambda>Swapped. seq (rd (\<lambda>s. case element_ref s RightNode of Inl e \<Rightarrow> Inl e
                                     | Inr r \<Rightarrow> load s r))
          (\<lambda>v. seq (rd (\<lambda>s. element_ref s LeftNode))
          (\<lambda>l. seq (store l v)
          (\<lambda>_. seq (rd (\<lambda>s. element_ref s RightNode))
          (\<lambda>r. store r Swapped))))))) L)"

lemma Swap_lsize: "Swap Lft Rgt L = (res, L') \<Longrightarrow> lsize L' = lsize L"
  by (auto simp: Swap_def throw_def seq_def rd_def store_def
      split: if_splits sum.splits prod.splits option.splits)

partial_function (option) Fill_loop ::
  "'a \<Rightarrow> Node \<Rightarrow> 'a LinkedList \<Rightarrow> ((error + unit) \<times> 'a LinkedList) option" where
  "Fill_loop Value it L =
     (if \<not> Node_eq it (List_end L) then
        (case Node_deref it of Inl e \<Rightarrow> Some (Inl e, L)
         | Inr r \<Rightarrow>
             (case store r Value L of (Inl e, L1) \<Rightarrow> Some (Inl e, L1)
              | (Inr u, L1) \<Rightarrow>
                  (case Node_inc L1 it of Inl e \<Rightarrow> Some (Inl e, L1)
                   | Inr it' \<Rightarrow> Fill_loop Value it' L1)))
      else Some (Inr (), L))"

declare Fill_loop.simps [code]

definition Fill :: "'a \<Rightarrow> 'a LinkedList \<Rightarrow> ((error + unit) \<times> 'a LinkedList) option" where
  "Fill Value L =
     (case List_begin L of Inl e \<Rightarrow> Some (Inl e, L) | Inr it \<Rightarrow> Fill_loop Value it L)"

text \<open>
  \<^verbatim>\<open>for (size_t Index = 0; Index < size / 2; ++Index) Swap(Index, size - Index - 1);\<close>
  Inside the loop \<open>Index < size\<close>, so the subtraction does not wrap.
\<close>

function Reverse_loop :: "nat \<Rightarrow> ('a LinkedList, unit) action" where
  "Reverse_loop Index L =
     (if Index < lsize L div 2 then
        seq (Swap Index (lsize L - Index - 1)) (\<lambda>_ s. Reverse_loop (Index + 1) s) L
      else ret () L)"
  by pat_completeness auto
termination
  by (relation "measure (\<lambda>(Index, L). lsize L div 2 - Index)") (auto dest: Swap_lsize)

declare Reverse_loop.simps [simp del]

definition Reverse :: "('a LinkedList, unit) action" where
  "Reverse L = Reverse_loop 0 L"

text \<open>
  \<^verbatim>\<open>for (Index = 0; Index < size; ++Index) { Random = std::rand() % size; Swap(Index, Random); }\<close>
  The argument \<open>rand\<close> gives the number that the call of \<^verbatim>\<open>std::rand()\<close> in round
  \<open>Index\<close> returns.
\<close>

function Shuffle_loop :: "(nat \<Rightarrow> nat) \<Rightarrow> nat \<Rightarrow> ('a LinkedList, unit) action" where
  "Shuffle_loop rand Index L =
     (if Index < lsize L then
        seq (Swap Index (rand Index mod lsize L)) (\<lambda>_ s. Shuffle_loop rand (Index + 1) s) L
      else ret () L)"
  by pat_completeness auto
termination
  by (relation "measure (\<lambda>(rand, Index, L). lsize L - Index)") (auto dest: Swap_lsize)

declare Shuffle_loop.simps [simp del]

definition Shuffle :: "(nat \<Rightarrow> nat) \<Rightarrow> ('a LinkedList, unit) action" where
  "Shuffle rand L = Shuffle_loop rand 0 L"

subsection \<open>Removal\<close>

text \<open>
  \<^verbatim>\<open>Clear()\<close>: \<^verbatim>\<open>while (Current != nullptr) { Next = Current->next; delete Current->data;
  Current->data = nullptr; delete Current; Current = Next; }\<close>, then the three fields
  are reset.
\<close>

partial_function (option) Clear_loop ::
  "addr option \<Rightarrow> 'a LinkedList \<Rightarrow> ((error + unit) \<times> 'a LinkedList) option" where
  "Clear_loop Current L =
     (if Current \<noteq> None then
        (case seq (rd (arrow nxt Current))
                (\<lambda>Next. seq (rd (arrow data Current))
                (\<lambda>d. seq (delete_cell d)
                (\<lambda>_. seq (assign_node Current (\<lambda>n. n\<lparr>data := None\<rparr>))
                (\<lambda>_. seq (delete_node Current)
                (\<lambda>_. ret Next))))) L
         of (Inl e, L1) \<Rightarrow> Some (Inl e, L1)
          | (Inr Next, L1) \<Rightarrow> Clear_loop Next L1)
      else Some (Inr (), L))"

declare Clear_loop.simps [code]

definition Clear :: "'a LinkedList \<Rightarrow> ((error + unit) \<times> 'a LinkedList) option" where
  "Clear L =
     (case Clear_loop (head L) L of None \<Rightarrow> None
      | Some (Inl e, L1) \<Rightarrow> Some (Inl e, L1)
      | Some (Inr u, L1) \<Rightarrow> Some (Inr (), L1\<lparr>lsize := 0, head := None, tail := None\<rparr>))"

text \<open>\<^verbatim>\<open>void Erase(const size_t Index)\<close>, branch by branch.\<close>

definition Erase_only :: "('a LinkedList, unit) action" where
  "Erase_only L =
     seq (rd (\<lambda>s. arrow data (head s) s))
       (\<lambda>d. seq (delete_cell d)
       (\<lambda>_. seq (\<lambda>s. assign_node (head s) (\<lambda>n. n\<lparr>data := None\<rparr>) s)
       (\<lambda>_. seq (\<lambda>s. delete_node (head s) s)
       (\<lambda>_ s. (Inr (), s\<lparr>head := None, tail := None\<rparr>))))) L"

definition Erase_first :: "('a LinkedList, unit) action" where
  "Erase_first L =
     seq (rd (\<lambda>s. arrow nxt (head s) s))
       (\<lambda>h. seq (\<lambda>s. (Inr (), s\<lparr>head := h\<rparr>))
       (\<lambda>_. seq (rd (\<lambda>s. arrow previous (head s) s))
       (\<lambda>hp. seq (rd (arrow data hp))
       (\<lambda>d. seq (delete_cell d)
       (\<lambda>_. seq (rd (\<lambda>s. arrow previous (head s) s))
       (\<lambda>hp. seq (assign_node hp (\<lambda>n. n\<lparr>data := None\<rparr>))
       (\<lambda>_. seq (rd (\<lambda>s. arrow previous (head s) s))
       (\<lambda>hp. seq (delete_node hp)
       (\<lambda>_ s. assign_node (head s) (\<lambda>n. n\<lparr>previous := None\<rparr>) s))))))))) L"

definition Erase_last :: "('a LinkedList, unit) action" where
  "Erase_last L =
     seq (rd (\<lambda>s. arrow previous (tail s) s))
       (\<lambda>t. seq (\<lambda>s. (Inr (), s\<lparr>tail := t\<rparr>))
       (\<lambda>_. seq (rd (\<lambda>s. arrow nxt (tail s) s))
       (\<lambda>tn. seq (rd (arrow data tn))
       (\<lambda>d. seq (delete_cell d)
       (\<lambda>_. seq (rd (\<lambda>s. arrow nxt (tail s) s))
       (\<lambda>tn. seq (assign_node tn (\<lambda>n. n\<lparr>data := None\<rparr>))
       (\<lambda>_. seq (rd (\<lambda>s. arrow nxt (tail s) s))
       (\<lambda>tn. seq (delete_node tn)
       (\<lambda>_ s. assign_node (tail s) (\<lambda>n. n\<lparr>nxt := None\<rparr>) s))))))))) L"

definition Erase_middle :: "nat \<Rightarrow> ('a LinkedList, unit) action" where
  "Erase_middle Index L =
     seq (rd (\<lambda>s. case Traverse s Index of Inl e \<Rightarrow> Inl e | Inr p \<Rightarrow> arrow nxt (Some p) s))
       (\<lambda>Next. seq (rd (\<lambda>s. case arrow previous Next s of Inl e \<Rightarrow> Inl e
                             | Inr np \<Rightarrow> arrow previous np s))
       (\<lambda>Previous. seq (rd (\<lambda>s. case arrow previous Next s of Inl e \<Rightarrow> Inl e
                                 | Inr np \<Rightarrow> arrow data np s))
       (\<lambda>d. seq (delete_cell d)
       (\<lambda>_. seq (rd (arrow previous Next))
       (\<lambda>np. seq (assign_node np (\<lambda>n. n\<lparr>data := None\<rparr>))
       (\<lambda>_. seq (rd (arrow previous Next))
       (\<lambda>np. seq (delete_node np)
       (\<lambda>_. seq (assign_node Next (\<lambda>n. n\<lparr>previous := Previous\<rparr>))
       (\<lambda>_. if Previous \<noteq> None then assign_node Previous (\<lambda>n. n\<lparr>nxt := Next\<rparr>)
             else ret ()))))))))) L"

definition Erase :: "nat \<Rightarrow> ('a LinkedList, unit) action" where
  "Erase Index L =
     (if \<not> IsValidIndex L Index then throw (OutOfBounds Index (lsize L)) L
      else
        seq (if Index = 0 then (if lsize L = 1 then Erase_only else Erase_first)
             else if Index = lsize L - 1 then Erase_last
             else Erase_middle Index)
          (\<lambda>_ s. (Inr (), s\<lparr>lsize := lsize s - 1\<rparr>)) L)"

definition PopFront :: "('a LinkedList, unit) action" where
  "PopFront L = Erase 0 L"

definition PopBack :: "('a LinkedList, unit) action" where
  "PopBack L = Erase (size_sub (lsize L) 1) L"

text \<open>
  The elements in the order in which \<^verbatim>\<open>for (auto& Element : *this)\<close> visits them.
\<close>

partial_function (option) elements_loop ::
  "'a LinkedList \<Rightarrow> Node \<Rightarrow> 'a list \<Rightarrow> (error + 'a list) option" where
  "elements_loop L it seen =
     (if \<not> Node_eq it (List_end L) then
        (case Node_deref it of Inl e \<Rightarrow> Some (Inl e)
         | Inr r \<Rightarrow>
             (case load L r of Inl e \<Rightarrow> Some (Inl e)
              | Inr Element \<Rightarrow>
                  (case Node_inc L it of Inl e \<Rightarrow> Some (Inl e)
                   | Inr it' \<Rightarrow> elements_loop L it' (seen @ [Element]))))
      else Some (Inr seen))"

declare elements_loop.simps [code]

definition elements :: "'a LinkedList \<Rightarrow> (error + 'a list) option" where
  "elements L =
     (case List_begin L of Inl e \<Rightarrow> Some (Inl e) | Inr it \<Rightarrow> elements_loop L it [])"

section \<open>Sorting.h\<close>

text \<open>
  The sorting functions are templates over \<^verbatim>\<open>CollectionType\<close>, of which they use
  \<^verbatim>\<open>Collection[Index]\<close> only: \<open>at\<close> is \<^verbatim>\<open>operator[]\<close>, which returns a
  reference or throws, \<open>fetch\<close> reads through a reference and \<open>put\<close> writes through
  one.
\<close>

record ('c, 'r, 'a) indexable =
  at :: "'c \<Rightarrow> nat \<Rightarrow> error + 'r"
  fetch :: "'c \<Rightarrow> 'r \<Rightarrow> error + 'a"
  put :: "'r \<Rightarrow> 'a \<Rightarrow> ('c, unit) action"

text \<open>
  \<^verbatim>\<open>Collection[i]\<close> read as a value, and \<^verbatim>\<open>Collection[i] = v\<close>. In
  \<^verbatim>\<open>Collection[i] = Collection[j]\<close> the right operand is evaluated first.
\<close>

definition element :: "('c, 'r, 'a) indexable \<Rightarrow> nat \<Rightarrow> ('c, 'a) action" where
  "element C i = rd (\<lambda>c. case at C c i of Inl e \<Rightarrow> Inl e | Inr r \<Rightarrow> fetch C c r)"

definition assign :: "('c, 'r, 'a) indexable \<Rightarrow> nat \<Rightarrow> 'a \<Rightarrow> ('c, unit) action" where
  "assign C i v = seq (rd (\<lambda>c. at C c i)) (\<lambda>r. put C r v)"

definition assign_from :: "('c, 'r, 'a) indexable \<Rightarrow> nat \<Rightarrow> nat \<Rightarrow> ('c, unit) action" where
  "assign_from C i j =
     seq (rd (\<lambda>c. at C c j))
       (\<lambda>rj. seq (rd (\<lambda>c. at C c i))
       (\<lambda>ri. seq (rd (\<lambda>c. fetch C c rj))
       (\<lambda>v. put C ri v)))"

text \<open>
  \<^verbatim>\<open>const Type Swapped = Collection[i]; Collection[i] = Collection[j]; Collection[j] = Swapped;\<close>
\<close>

definition exchange :: "('c, 'r, 'a) indexable \<Rightarrow> nat \<Rightarrow> nat \<Rightarrow> ('c, unit) action" where
  "exchange C i j =
     seq (element C i)
       (\<lambda>Swapped. seq (assign_from C i j)
       (\<lambda>_. assign C j Swapped))"

text \<open>
  \<^verbatim>\<open>Comparer(Collection[i], Collection[j])\<close>: both references are taken (here the
  left one first; C++ leaves the order open), then the comparer reads them.
\<close>

definition compare_at ::
  "('c, 'r, 'a) indexable \<Rightarrow> ('a \<Rightarrow> 'a \<Rightarrow> bool) \<Rightarrow> nat \<Rightarrow> nat \<Rightarrow> ('c, bool) action" where
  "compare_at C Comparer i j =
     seq (rd (\<lambda>c. at C c i))
       (\<lambda>ri. seq (rd (\<lambda>c. at C c j))
       (\<lambda>rj. seq (rd (\<lambda>c. fetch C c ri))
       (\<lambda>a. seq (rd (\<lambda>c. fetch C c rj))
       (\<lambda>b. ret (Comparer a b)))))"

text \<open>
  The same call with the right reference taken first. The two orders leave the
  collection as it is and return the same value whenever one of them returns; they
  differ only in which subscript's error is thrown when both subscripts throw.
\<close>

definition compare_at_right_first ::
  "('c, 'r, 'a) indexable \<Rightarrow> ('a \<Rightarrow> 'a \<Rightarrow> bool) \<Rightarrow> nat \<Rightarrow> nat \<Rightarrow> ('c, bool) action" where
  "compare_at_right_first C Comparer i j =
     seq (rd (\<lambda>c. at C c j))
       (\<lambda>rj. seq (rd (\<lambda>c. at C c i))
       (\<lambda>ri. seq (rd (\<lambda>c. fetch C c ri))
       (\<lambda>a. seq (rd (\<lambda>c. fetch C c rj))
       (\<lambda>b. ret (Comparer a b)))))"

lemma compare_at_either_order:
  "snd (compare_at C Comparer i j c) = c \<and> snd (compare_at_right_first C Comparer i j c) = c \<and>
   (fst (compare_at C Comparer i j c) = Inr b \<longleftrightarrow>
    fst (compare_at_right_first C Comparer i j c) = Inr b) \<and>
   ((\<exists>e. fst (compare_at C Comparer i j c) = Inl e) \<longleftrightarrow>
    (\<exists>e. fst (compare_at_right_first C Comparer i j c) = Inl e))"
  by (auto simp: compare_at_def compare_at_right_first_def seq_def rd_def ret_def
      split: sum.splits)

text \<open>\<^verbatim>\<open>GreaterThan(Left, Right)\<close>: \<^verbatim>\<open>return Left > Right;\<close>, the default comparer.\<close>

definition GreaterThan :: "'a::ord \<Rightarrow> 'a \<Rightarrow> bool" where
  "GreaterThan l r = (l > r)"

subsection \<open>IsSorted\<close>

text \<open>
  \<^verbatim>\<open>for (size_t Index = 0; Index < Size - 1; ++Index)
    if (Comparer(Collection[Index], Collection[Index + 1])) return false;
  return true;\<close>
  \<^verbatim>\<open>Size - 1\<close> is a \<^verbatim>\<open>size_t\<close> subtraction.
\<close>

function IsSorted_loop ::
  "('c, 'r, 'a) indexable \<Rightarrow> nat \<Rightarrow> ('a \<Rightarrow> 'a \<Rightarrow> bool) \<Rightarrow> nat \<Rightarrow> ('c, bool) action" where
  "IsSorted_loop C Size Comparer Index c =
     (if Index < size_sub Size 1 then
        seq (compare_at C Comparer Index (Index + 1))
          (\<lambda>b s. if b then ret False s else IsSorted_loop C Size Comparer (Index + 1) s) c
      else ret True c)"
  by pat_completeness auto
termination
  by (relation "measure (\<lambda>(C, Size, Comparer, Index, c). size_sub Size 1 - Index)") auto

declare IsSorted_loop.simps [simp del]

definition IsSorted ::
  "('c, 'r, 'a) indexable \<Rightarrow> nat \<Rightarrow> ('a \<Rightarrow> 'a \<Rightarrow> bool) \<Rightarrow> ('c, bool) action" where
  "IsSorted C Size Comparer c = IsSorted_loop C Size Comparer 0 c"

subsection \<open>BubbleSort\<close>

text \<open>
  The inner loop \<^verbatim>\<open>for (Right = 0; Right < Size - Left - 1; ++Right)\<close> with its
  bound computed in \<^verbatim>\<open>size_t\<close>; it returns \<^verbatim>\<open>HasSwapped\<close>. The loop variables
  \<^verbatim>\<open>Left\<close> and \<^verbatim>\<open>Right\<close> are written \<open>Lft\<close> and \<open>Rgt\<close>.
\<close>

function BubbleSort_inner ::
  "('c, 'r, 'a) indexable \<Rightarrow> nat \<Rightarrow> ('a \<Rightarrow> 'a \<Rightarrow> bool) \<Rightarrow> nat \<Rightarrow> nat \<Rightarrow> bool \<Rightarrow> ('c, bool) action"
  where
  "BubbleSort_inner C Size Comparer Lft Rgt HasSwapped c =
     (if Rgt < size_sub (size_sub Size Lft) 1 then
        seq (compare_at C Comparer Rgt (Rgt + 1))
          (\<lambda>b. if b then
                 seq (exchange C Rgt (Rgt + 1))
                   (\<lambda>_ s. BubbleSort_inner C Size Comparer Lft (Rgt + 1) True s)
               else (\<lambda>s. BubbleSort_inner C Size Comparer Lft (Rgt + 1) HasSwapped s)) c
      else ret HasSwapped c)"
  by pat_completeness auto
termination
  by (relation "measure (\<lambda>(C, Size, Comparer, Lft, Rgt, HasSwapped, c).
        size_sub (size_sub Size Lft) 1 - Rgt)") auto

declare BubbleSort_inner.simps [simp del]

function BubbleSort_outer ::
  "('c, 'r, 'a) indexable \<Rightarrow> nat \<Rightarrow> ('a \<Rightarrow> 'a \<Rightarrow> bool) \<Rightarrow> nat \<Rightarrow> ('c, unit) action" where
  "BubbleSort_outer C Size Comparer Lft c =
     (if Lft < size_sub Size 1 then
        seq (BubbleSort_inner C Size Comparer Lft 0 False)
          (\<lambda>HasSwapped. if \<not> HasSwapped then ret ()
                         else (\<lambda>s. BubbleSort_outer C Size Comparer (Lft + 1) s)) c
      else ret () c)"
  by pat_completeness auto
termination
  by (relation "measure (\<lambda>(C, Size, Comparer, Lft, c). size_sub Size 1 - Lft)") auto

declare BubbleSort_outer.simps [simp del]

definition BubbleSort ::
  "('c, 'r, 'a) indexable \<Rightarrow> nat \<Rightarrow> ('a \<Rightarrow> 'a \<Rightarrow> bool) \<Rightarrow> ('c, unit) action" where
  "BubbleSort C Size Comparer c = BubbleSort_outer C Size Comparer 0 c"

subsection \<open>MergeSort\<close>

text \<open>
  \<^verbatim>\<open>Type* Left = new Type[LeftSize]; for (Index = 0; Index < LeftSize; ++Index)
  Left[Index] = Collection[Begin + Index];\<close> The temporary array is the list of the
  values read, in the order of the loop.
\<close>

fun copy_out :: "('c, 'r, 'a) indexable \<Rightarrow> nat \<Rightarrow> nat \<Rightarrow> ('c, 'a list) action" where
  "copy_out C start 0 c = ret [] c"
| "copy_out C start (Suc n) c =
     seq (element C start)
       (\<lambda>v. seq (\<lambda>s. copy_out C (start + 1) n s)
       (\<lambda>vs. ret (v # vs))) c"

text \<open>
  The three loops of \<^verbatim>\<open>Merge\<close>, after \<^verbatim>\<open>Middle = Begin; Begin = 0; End = 0;\<close>.
  \<open>LeftArr\<close> and \<open>RightArr\<close> are the arrays \<^verbatim>\<open>Left\<close> and \<^verbatim>\<open>Right\<close>, whose
  lengths are \<^verbatim>\<open>LeftSize\<close> and \<^verbatim>\<open>RightSize\<close>.
\<close>

function Merge_right ::
  "('c, 'r, 'a) indexable \<Rightarrow> 'a list \<Rightarrow> nat \<Rightarrow> nat \<Rightarrow> ('c, unit) action" where
  "Merge_right C RightArr End Middle c =
     (if End < length RightArr then
        seq (assign C Middle (RightArr ! End))
          (\<lambda>_ s. Merge_right C RightArr (End + 1) (Middle + 1) s) c
      else ret () c)"
  by pat_completeness auto
termination
  by (relation "measure (\<lambda>(C, RightArr, End, Middle, c). length RightArr - End)") auto

declare Merge_right.simps [simp del]

function Merge_left ::
  "('c, 'r, 'a) indexable \<Rightarrow> 'a list \<Rightarrow> 'a list \<Rightarrow> nat \<Rightarrow> nat \<Rightarrow> nat \<Rightarrow> ('c, unit) action"
  where
  "Merge_left C LeftArr RightArr Begin End Middle c =
     (if Begin < length LeftArr then
        seq (assign C Middle (LeftArr ! Begin))
          (\<lambda>_ s. Merge_left C LeftArr RightArr (Begin + 1) End (Middle + 1) s) c
      else Merge_right C RightArr End Middle c)"
  by pat_completeness auto
termination
  by (relation "measure (\<lambda>(C, LeftArr, RightArr, Begin, End, Middle, c).
        length LeftArr - Begin)") auto

declare Merge_left.simps [simp del]

function Merge_both ::
  "('c, 'r, 'a) indexable \<Rightarrow> ('a \<Rightarrow> 'a \<Rightarrow> bool) \<Rightarrow> 'a list \<Rightarrow> 'a list \<Rightarrow> nat \<Rightarrow> nat \<Rightarrow> nat
     \<Rightarrow> ('c, unit) action" where
  "Merge_both C Comparer LeftArr RightArr Begin End Middle c =
     (if Begin < length LeftArr \<and> End < length RightArr then
        (if \<not> Comparer (LeftArr ! Begin) (RightArr ! End) then
           seq (assign C Middle (LeftArr ! Begin))
             (\<lambda>_ s. Merge_both C Comparer LeftArr RightArr (Begin + 1) End (Middle + 1) s) c
         else
           seq (assign C Middle (RightArr ! End))
             (\<lambda>_ s. Merge_both C Comparer LeftArr RightArr Begin (End + 1) (Middle + 1) s) c)
      else Merge_left C LeftArr RightArr Begin End Middle c)"
  by pat_completeness auto
termination
  by (relation "measure (\<lambda>(C, Comparer, LeftArr, RightArr, Begin, End, Middle, c).
        (length LeftArr - Begin) + (length RightArr - End))") auto

declare Merge_both.simps [simp del]

text \<open>
  \<^verbatim>\<open>Merge(Collection, Begin, Middle, End, Comparer)\<close>. It is called with
  \<open>Begin \<le> Middle < End\<close>, so \<^verbatim>\<open>Middle - Begin + 1\<close> and \<^verbatim>\<open>End - Middle\<close> do
  not wrap.
\<close>

definition Merge ::
  "('c, 'r, 'a) indexable \<Rightarrow> nat \<Rightarrow> nat \<Rightarrow> nat \<Rightarrow> ('a \<Rightarrow> 'a \<Rightarrow> bool) \<Rightarrow> ('c, unit) action" where
  "Merge C Begin Middle End Comparer =
     seq (copy_out C Begin (Middle - Begin + 1))
       (\<lambda>LeftArr. seq (copy_out C (Middle + 1) (End - Middle))
       (\<lambda>RightArr. Merge_both C Comparer LeftArr RightArr 0 0 Begin))"

function RecursiveMergeSort ::
  "('c, 'r, 'a) indexable \<Rightarrow> nat \<Rightarrow> nat \<Rightarrow> ('a \<Rightarrow> 'a \<Rightarrow> bool) \<Rightarrow> ('c, unit) action" where
  "RecursiveMergeSort C Begin End Comparer c =
     (if Begin \<ge> End then ret () c
      else
        (let Middle = (Begin + End) div 2
         in seq (\<lambda>s. RecursiveMergeSort C Begin Middle Comparer s)
              (\<lambda>_. seq (\<lambda>s. RecursiveMergeSort C (Middle + 1) End Comparer s)
              (\<lambda>_. Merge C Begin Middle End Comparer)) c))"
  by pat_completeness auto
termination
  by (relation "measure (\<lambda>(C, Begin, End, Comparer, c). End - Begin)") auto

declare RecursiveMergeSort.simps [simp del]

definition MergeSort ::
  "('c, 'r, 'a) indexable \<Rightarrow> nat \<Rightarrow> ('a \<Rightarrow> 'a \<Rightarrow> bool) \<Rightarrow> ('c, unit) action" where
  "MergeSort C Size Comparer c = RecursiveMergeSort C 0 (size_sub Size 1) Comparer c"

subsection \<open>QuickSort\<close>

text \<open>
  The loop of \<^verbatim>\<open>Partition\<close>. \<^verbatim>\<open>Pivot\<close> is a \<^verbatim>\<open>const Type&\<close>: a reference,
  read again at every comparison.
\<close>

function Partition_loop ::
  "('c, 'r, 'a) indexable \<Rightarrow> nat \<Rightarrow> 'r \<Rightarrow> ('a \<Rightarrow> 'a \<Rightarrow> bool) \<Rightarrow> nat \<Rightarrow> nat \<Rightarrow> ('c, nat) action"
  where
  "Partition_loop C High Pivot Comparer Index PivotIndex c =
     (if Index < High then
        seq (rd (\<lambda>c. at C c Index))
          (\<lambda>ri. seq (rd (\<lambda>c. fetch C c ri))
          (\<lambda>a. seq (rd (\<lambda>c. fetch C c Pivot))
          (\<lambda>p. if \<not> Comparer a p then
                  seq (exchange C PivotIndex Index)
                    (\<lambda>_ s. Partition_loop C High Pivot Comparer (Index + 1) (PivotIndex + 1) s)
                else (\<lambda>s. Partition_loop C High Pivot Comparer (Index + 1) PivotIndex s)))) c
      else ret PivotIndex c)"
  by pat_completeness auto
termination
  by (relation "measure (\<lambda>(C, High, Pivot, Comparer, Index, PivotIndex, c). High - Index)") auto

declare Partition_loop.simps [simp del]

text \<open>
  \<^verbatim>\<open>size_t Partition(Collection, Low, High, const Type& Pivot, Comparer = GreaterThan)\<close>:
  the loop from \<^verbatim>\<open>PivotIndex = Low\<close>, then the exchange of \<^verbatim>\<open>Collection[PivotIndex]\<close>
  and \<^verbatim>\<open>Collection[High]\<close>.
\<close>

definition Partition ::
  "('c, 'r, 'a) indexable \<Rightarrow> nat \<Rightarrow> nat \<Rightarrow> 'r \<Rightarrow> ('a \<Rightarrow> 'a \<Rightarrow> bool) \<Rightarrow> ('c, nat) action" where
  "Partition C Low High Pivot Comparer =
     seq (Partition_loop C High Pivot Comparer Low Low)
       (\<lambda>PivotIndex. seq (exchange C PivotIndex High)
       (\<lambda>_. ret PivotIndex))"

lemma Partition_loop_range:
  "Partition_loop C High Pivot Comparer Index PivotIndex c = (Inr k, c') \<Longrightarrow>
     PivotIndex \<le> k \<and> k + Index \<le> PivotIndex + max Index High"
proof (induction C High Pivot Comparer Index PivotIndex c
    rule: Partition_loop.induct)
  case (1 C High Pivot Comparer Index PivotIndex c)
  note step = Partition_loop.simps [of C High Pivot Comparer Index PivotIndex c]
  show ?case
  proof (cases "Index < High")
    case False
    with "1.prems" step show ?thesis
      by (simp add: ret_def)
  next
    case True
    from "1.prems" step True obtain ri a p where
      ri: "at C c Index = Inr ri" and a: "fetch C c ri = Inr a" and p: "fetch C c Pivot = Inr p"
      by (auto simp: seq_def rd_def split: sum.splits)
    show ?thesis
    proof (cases "Comparer a p")
      case True
      with "1.prems" step \<open>Index < High\<close> ri a p have
        "Partition_loop C High Pivot Comparer (Index + 1) PivotIndex c = (Inr k, c')"
        by (simp add: seq_def rd_def)
      with "1.IH"(2) ri a p True \<open>Index < High\<close>
      show ?thesis
        by (fastforce simp: rd_def)
    next
      case False
      with "1.prems" step \<open>Index < High\<close> ri a p obtain c1 where
        ex: "exchange C PivotIndex Index c = (Inr (), c1)" and
        rec: "Partition_loop C High Pivot Comparer (Index + 1) (PivotIndex + 1) c1 = (Inr k, c')"
        by (auto simp: seq_def rd_def split: sum.splits prod.splits)
      with "1.IH"(1) ri a p False \<open>Index < High\<close>
      show ?thesis
        by (fastforce simp: rd_def)
    qed
  qed
qed

lemma Partition_range:
  assumes "Partition C Low High Pivot Comparer c = (Inr k, c')" and "Low \<le> High"
  shows "Low \<le> k \<and> k \<le> High"
proof -
  from assms(1) obtain c1 where "Partition_loop C High Pivot Comparer Low Low c = (Inr k, c1)"
    by (auto simp: Partition_def seq_def ret_def split: sum.splits prod.splits)
  from Partition_loop_range [OF this] assms(2) show ?thesis
    by simp
qed

text \<open>
  \<^verbatim>\<open>RecursiveQuickSort(Collection, Low, High, Comparer)\<close>. The call
  \<^verbatim>\<open>Partition<CollectionType, Type>(Collection, Low, High, Collection[High])\<close> passes
  four arguments, so \<^verbatim>\<open>Partition\<close> runs with its default comparer
  \<^verbatim>\<open>GreaterThan\<close>; \<open>Comparer\<close> only travels down the recursion.
\<close>

function RecursiveQuickSort ::
  "('c, 'r, 'a::ord) indexable \<Rightarrow> nat \<Rightarrow> nat \<Rightarrow> ('a \<Rightarrow> 'a \<Rightarrow> bool) \<Rightarrow> ('c, unit) action" where
  "RecursiveQuickSort C Low High Comparer c =
     (if Low \<ge> High then ret () c
      else
        seq (rd (\<lambda>c. at C c High))
          (\<lambda>Pivot. seq (Partition C Low High Pivot GreaterThan)
          (\<lambda>PivotIndex. seq (if PivotIndex > 0
                              then (\<lambda>s. RecursiveQuickSort C Low (PivotIndex - 1) Comparer s)
                              else ret ())
          (\<lambda>_ s. RecursiveQuickSort C (PivotIndex + 1) High Comparer s))) c)"
  by pat_completeness auto
termination
proof (relation "measure (\<lambda>(C, Low, High, Comparer, c). High - Low)", goal_cases)
  case 1
  show ?case by simp
next
  case (2 C Low High Comparer c Pivot t PivotIndex t')
  then show ?case
    using Partition_range [of C Low High Pivot GreaterThan t PivotIndex t'] by auto
next
  case (3 C Low High Comparer c Pivot t PivotIndex t' u t'')
  then show ?case
    using Partition_range [of C Low High Pivot GreaterThan t PivotIndex t'] by auto
qed

declare RecursiveQuickSort.simps [simp del]

definition QuickSort ::
  "('c, 'r, 'a::ord) indexable \<Rightarrow> nat \<Rightarrow> ('a \<Rightarrow> 'a \<Rightarrow> bool) \<Rightarrow> ('c, unit) action" where
  "QuickSort C Size Comparer c = RecursiveQuickSort C 0 (size_sub Size 1) Comparer c"

section \<open>The collections that are sorted\<close>

text \<open>
  \<^verbatim>\<open>List<Type>\<close> as \<^verbatim>\<open>CollectionType\<close>: \<^verbatim>\<open>operator[]\<close> of List.h, and the
  elements of the free store.
\<close>

definition List_indexable :: "('a LinkedList, addr, 'a) indexable" where
  "List_indexable = \<lparr>at = subscript, fetch = load, put = store\<rparr>"

definition List_IsSorted :: "('a::ord) LinkedList \<Rightarrow> error + bool" where
  "List_IsSorted L = fst (IsSorted List_indexable (lsize L) GreaterThan L)"

definition List_BubbleSort :: "(('a::ord) LinkedList, unit) action" where
  "List_BubbleSort L = BubbleSort List_indexable (lsize L) GreaterThan L"

definition List_MergeSort :: "(('a::ord) LinkedList, unit) action" where
  "List_MergeSort L = MergeSort List_indexable (lsize L) GreaterThan L"

definition List_QuickSort :: "(('a::ord) LinkedList, unit) action" where
  "List_QuickSort L = QuickSort List_indexable (lsize L) GreaterThan L"

text \<open>
  An array seen through \<^verbatim>\<open>Collection<Type*>\<close> of Collection.h: its
  \<^verbatim>\<open>operator[]\<close> throws when \<^verbatim>\<open>Index >= size\<close> and otherwise steps \<^verbatim>\<open>Index\<close>
  times forward from \<^verbatim>\<open>first\<close>. The state is the array's contents, a reference is a
  position in it.
\<close>

definition Array_indexable :: "('a list, nat, 'a) indexable" where
  "Array_indexable =
     \<lparr>at = (\<lambda>c Index. if Index \<ge> length c then Inl (CollectionOutOfBounds Index (length c))
                       else Inr Index),
      fetch = (\<lambda>c r. if r < length c then Inr (c ! r) else Inl Undefined),
      put = (\<lambda>r v c. if r < length c then (Inr (), c[r := v]) else (Inl Undefined, c))\<rparr>"

section \<open>Assignment between list objects\<close>

text \<open>
  The assignment operators compare \<^verbatim>\<open>this\<close> with the address of their argument, so
  here list objects have addresses: \<open>objs\<close> holds the fields \<^verbatim>\<open>size\<close>,
  \<^verbatim>\<open>head\<close>, \<^verbatim>\<open>tail\<close> of every list object, and all of them share one free
  store. \<open>view\<close> is the list at an address as the member functions above see it,
  \<open>commit\<close> puts it back.
\<close>

record 'a world =
  objs :: "addr \<rightharpoonup> nat \<times> addr option \<times> addr option"
  wnodes :: "addr \<rightharpoonup> Node"
  wcells :: "addr \<rightharpoonup> 'a"
  wbrk :: addr

definition view :: "'a world \<Rightarrow> addr \<Rightarrow> 'a LinkedList option" where
  "view w a =
     (case objs w a of None \<Rightarrow> None
      | Some (n, h, t) \<Rightarrow>
          Some \<lparr>lsize = n, head = h, tail = t, nodes = wnodes w, cells = wcells w, brk = wbrk w\<rparr>)"

definition commit :: "addr \<Rightarrow> 'a LinkedList \<Rightarrow> 'a world \<Rightarrow> 'a world" where
  "commit a L w =
     \<lparr>objs = (objs w)(a \<mapsto> (lsize L, head L, tail L)),
      wnodes = nodes L, wcells = cells L, wbrk = brk L\<rparr>"

text \<open>\<^verbatim>\<open>for (auto& Element : Copied) PushBack(Element);\<close> with \<open>L\<close> the list pushed to.\<close>

partial_function (option) copy_loop ::
  "Node \<Rightarrow> 'a LinkedList \<Rightarrow> ((error + unit) \<times> 'a LinkedList) option" where
  "copy_loop it L =
     (if \<not> Node_eq it (List_end L) then
        (case Node_deref it of Inl e \<Rightarrow> Some (Inl e, L)
         | Inr r \<Rightarrow>
             (case load L r of Inl e \<Rightarrow> Some (Inl e, L)
              | Inr Element \<Rightarrow>
                  (case PushBack Element L of (Inl e, L1) \<Rightarrow> Some (Inl e, L1)
                   | (Inr u, L1) \<Rightarrow>
                       (case Node_inc L1 it of Inl e \<Rightarrow> Some (Inl e, L1)
                        | Inr it' \<Rightarrow> copy_loop it' L1))))
      else Some (Inr (), L))"

declare copy_loop.simps [code]

text \<open>
  \<^verbatim>\<open>List& operator=(const List& Copied)\<close>:
  \<^verbatim>\<open>if (this == &Copied) return *this; Clear(); for (auto& Element : Copied) PushBack(Element);\<close>
\<close>

definition copy_assign :: "addr \<Rightarrow> addr \<Rightarrow> 'a world \<Rightarrow> ((error + unit) \<times> 'a world) option" where
  "copy_assign this Copied w =
     (if this = Copied then Some (Inr (), w)
      else
        (case view w this of None \<Rightarrow> Some (Inl Undefined, w)
         | Some L \<Rightarrow>
             (case Clear L of None \<Rightarrow> None
              | Some (Inl e, L1) \<Rightarrow> Some (Inl e, commit this L1 w)
              | Some (Inr u, L1) \<Rightarrow>
                  (case view (commit this L1 w) Copied of
                     None \<Rightarrow> Some (Inl Undefined, commit this L1 w)
                   | Some C \<Rightarrow>
                       (case List_begin C of Inl e \<Rightarrow> Some (Inl e, commit this L1 w)
                        | Inr it \<Rightarrow>
                            (case copy_loop it L1 of None \<Rightarrow> None
                             | Some (res, L2) \<Rightarrow> Some (res, commit this L2 w)))))))"

text \<open>
  \<^verbatim>\<open>List& operator=(List&& Moved)\<close>:
  \<^verbatim>\<open>if (this == &Moved) return *this; Clear(); size = Moved.size; head = Moved.head;
  tail = Moved.tail; Moved.size = 0; Moved.head = nullptr; Moved.tail = nullptr;\<close>
\<close>

definition move_assign :: "addr \<Rightarrow> addr \<Rightarrow> 'a world \<Rightarrow> ((error + unit) \<times> 'a world) option" where
  "move_assign this Moved w =
     (if this = Moved then Some (Inr (), w)
      else
        (case view w this of None \<Rightarrow> Some (Inl Undefined, w)
         | Some L \<Rightarrow>
             (case Clear L of None \<Rightarrow> None
              | Some (Inl e, L1) \<Rightarrow> Some (Inl e, commit this L1 w)
              | Some (Inr u, L1) \<Rightarrow>
                  (let w1 = commit this L1 w
                   in (case objs w1 Moved of None \<Rightarrow> Some (Inl Undefined, w1)
                       | Some m \<Rightarrow>
                           Some (Inr (), w1\<lparr>objs := (objs w1)(this \<mapsto> m,
                                                             Moved \<mapsto> (0, None, None))\<rparr>))))))"

section \<open>Comparers other than the default, used as inputs below\<close>

definition LessThan :: "int \<Rightarrow> int \<Rightarrow> bool" where
  "LessThan l r = (l < r)"

definition GreaterOrEqual :: "int \<Rightarrow> int \<Rightarrow> bool" where
  "GreaterOrEqual l r = (l \<ge> r)"

section \<open>Well-formed lists\<close>

text \<open>
  \<open>is_list L ps ds\<close>: the nodes of \<open>L\<close> are, from head to tail, the ones at the
  addresses \<open>ps\<close>, their elements are stored at \<open>ds\<close>, each node points to its
  neighbours in \<open>ps\<close> (null at the two ends), and all of it was handed out by
  \<^verbatim>\<open>new\<close>. \<open>link ps ds i\<close> is the node that stands at position \<open>i\<close>.
\<close>

definition link :: "addr list \<Rightarrow> addr list \<Rightarrow> nat \<Rightarrow> Node" where
  "link ps ds i =
     \<lparr>previous = (if i = 0 then None else Some (ps ! (i - 1))),
      data = Some (ds ! i),
      nxt = (if Suc i = length ps then None else Some (ps ! Suc i))\<rparr>"

definition is_list :: "'a LinkedList \<Rightarrow> addr list \<Rightarrow> addr list \<Rightarrow> bool" where
  "is_list L ps ds \<longleftrightarrow>
     lsize L = length ps \<and> length ds = length ps \<and> distinct ps \<and> distinct ds \<and>
     head L = (if ps = [] then None else Some (ps ! 0)) \<and>
     tail L = (if ps = [] then None else Some (ps ! (length ps - 1))) \<and>
     (\<forall>i<length ps. nodes L (ps ! i) = Some (link ps ds i)) \<and>
     (\<forall>i<length ps. cells L (ds ! i) \<noteq> None) \<and>
     (\<forall>i<length ps. ps ! i < brk L \<and> ds ! i < brk L)"

text \<open>
  The position at which \<open>Traverse\<close> arrives when asked for \<open>Index\<close> in a list of
  \<open>n\<close> nodes: two short of it on the way back from the tail, except for the tail
  itself.
\<close>

definition landing :: "nat \<Rightarrow> nat \<Rightarrow> nat" where
  "landing n Index = (if Index > n div 2 \<and> Index \<noteq> n - 1 then Index - 2 else Index)"

lemma landing_less: "Index < n \<Longrightarrow> landing n Index < n"
  by (auto simp: landing_def)

lemma is_list_node_at:
  "is_list L ps ds \<Longrightarrow> i < length ps \<Longrightarrow> node_at L (Some (ps ! i)) = Inr (link ps ds i)"
  by (simp add: is_list_def node_at_def)

lemma Node_add_assign_link:
  "is_list L ps ds \<Longrightarrow> i + k < length ps \<Longrightarrow>
     Node_add_assign L (link ps ds i) (int k) = Inr (link ps ds (i + k))"
proof (induction k arbitrary: i)
  case 0
  then show ?case by (simp add: Node_add_assign.simps)
next
  case (Suc k)
  have inc: "Node_inc L (link ps ds i) = Inr (link ps ds (Suc i))"
    using Suc.prems is_list_node_at [of L ps ds "Suc i"]
    by (simp add: Node_inc_def link_def)
  have "Node_add_assign L (link ps ds i) (int (Suc k)) = Node_add_assign L (link ps ds (Suc i)) (int k)"
    by (subst Node_add_assign.simps) (simp add: inc)
  also have "\<dots> = Inr (link ps ds (Suc i + k))"
    using Suc.prems by (intro Suc.IH) simp_all
  finally show ?case by simp
qed

lemma Node_sub_assign_link:
  "is_list L ps ds \<Longrightarrow> i < length ps \<Longrightarrow> k \<le> i \<Longrightarrow>
     Node_sub_assign L (link ps ds i) (int k) = Inr (link ps ds (i - k))"
proof (induction k arbitrary: i)
  case 0
  then show ?case by (simp add: Node_sub_assign.simps)
next
  case (Suc k)
  then obtain j where j: "i = Suc j" by (cases i) auto
  have dec: "Node_dec L (link ps ds i) = Inr (link ps ds j)"
    using Suc.prems j is_list_node_at [of L ps ds j]
    by (simp add: Node_dec_def link_def)
  have "Node_sub_assign L (link ps ds i) (int (Suc k)) = Node_sub_assign L (link ps ds j) (int k)"
    by (subst Node_sub_assign.simps) (simp add: dec)
  also have "\<dots> = Inr (link ps ds (j - k))"
    using Suc.prems j by (intro Suc.IH) simp_all
  finally show ?case using j by simp
qed

lemma Node_plus_link:
  assumes "is_list L ps ds" and "i + k < length ps"
  shows "Node_plus L (ps ! i) (int k) = Inr (ps ! (i + k))"
proof (cases k)
  case 0
  then show ?thesis by (simp add: Node_plus_def)
next
  case (Suc m)
  with assms have "Node_add_assign L (link ps ds i) (int m) = Inr (link ps ds (i + m))"
    by (intro Node_add_assign_link) simp_all
  moreover have "int k - 1 = int m" using Suc by simp
  ultimately show ?thesis
    using assms Suc is_list_node_at [of L ps ds i]
    by (simp add: Node_plus_def link_def)
qed

lemma Node_minus_link:
  assumes "is_list L ps ds" and "i < length ps" and "0 < k" and "k + 2 \<le> i"
  shows "Node_minus L (ps ! i) (int k) = Inr (ps ! (i - k - 2))"
proof -
  have e: "int k + 1 = int (Suc k)" by simp
  have s: "Node_sub_assign L (link ps ds i) (int (Suc k)) = Inr (link ps ds (i - Suc k))"
    using assms by (intro Node_sub_assign_link) simp_all
  have p: "previous (link ps ds (i - Suc k)) = Some (ps ! (i - k - 2))"
    using assms by (simp add: link_def)
  show ?thesis
    using assms(3) 
    by (simp add: Node_minus_def e is_list_node_at [OF assms(1,2)] s p del: of_nat_Suc)
qed

lemma Traverse_landing:
  assumes "is_list L ps ds" and "Index < length ps"
  shows "Traverse L Index = Inr (ps ! landing (length ps) Index)"
proof -
  let ?n = "length ps"
  from assms have n: "lsize L = ?n" and ne: "ps \<noteq> []"
    and hd: "head L = Some (ps ! 0)" and tl: "tail L = Some (ps ! (?n - 1))"
    by (auto simp: is_list_def)
  show ?thesis
  proof (cases "Index > ?n div 2")
    case False
    with assms n hd Node_plus_link [OF assms(1), of 0 Index] show ?thesis
      by (simp add: Traverse_def IsValidIndex_def landing_def)
  next
    case True
    show ?thesis
    proof (cases "Index = ?n - 1")
      case True
      with assms n tl \<open>Index > ?n div 2\<close> show ?thesis
        by (simp add: Traverse_def IsValidIndex_def landing_def Node_minus_def)
    next
      case False
      with True assms(2) have k: "0 < ?n - Index - 1" "(?n - Index - 1) + 2 \<le> ?n - 1"
        by auto
      from Node_minus_link [OF assms(1) _ k] assms(2)
      have "Node_minus L (ps ! (?n - 1)) (int (?n - Index - 1)) = Inr (ps ! (?n - 1 - (?n - Index - 1) - 2))"
        by simp
      moreover have "?n - 1 - (?n - Index - 1) - 2 = Index - 2"
        using assms(2) by simp
      ultimately show ?thesis
        using True False assms n tl
        by (simp add: Traverse_def IsValidIndex_def landing_def)
    qed
  qed
qed

lemma subscript_landing:
  assumes "is_list L ps ds" and "Index < length ps"
  shows "subscript L Index = Inr (ds ! landing (length ps) Index)"
  using assms Traverse_landing [OF assms] landing_less [OF assms(2)]
    is_list_node_at [OF assms(1), of "landing (length ps) Index"]
  by (simp add: subscript_def IsValidIndex_def is_list_def Node_deref_def link_def)

lemma element_ref_is_list:
  "is_list L ps ds \<Longrightarrow> i < length ps \<Longrightarrow> element_ref L (ps ! i) = Inr (ds ! i)"
  by (simp add: element_ref_def is_list_node_at Node_deref_def link_def)

lemma is_list_cell:
  "is_list L ps ds \<Longrightarrow> i < length ps \<Longrightarrow> \<exists>x. cells L (ds ! i) = Some x"
  by (auto simp: is_list_def)

lemma is_list_cells_update:
  "is_list L ps ds \<Longrightarrow> dom m = dom (cells L) \<Longrightarrow> is_list (L\<lparr>cells := m\<rparr>) ps ds"
  by (auto simp: is_list_def domIff set_eq_iff)

lemma Swap_is_list:
  assumes "is_list L ps ds" and "Lft < lsize L" and "Rgt < lsize L"
  shows "Swap Lft Rgt L =
     (Inr (), L\<lparr>cells := (cells L)(ds ! landing (lsize L) Lft := cells L (ds ! landing (lsize L) Rgt),
                                  ds ! landing (lsize L) Rgt := cells L (ds ! landing (lsize L) Lft))\<rparr>)"
proof -
  let ?n = "length ps"
  from assms have n: "lsize L = ?n" by (simp add: is_list_def)
  let ?a = "landing ?n Lft" and ?b = "landing ?n Rgt"
  from assms n have a: "?a < ?n" and b: "?b < ?n" by (simp_all add: landing_less)
  from is_list_cell [OF assms(1) a] is_list_cell [OF assms(1) b]
  obtain x y where x: "cells L (ds ! ?a) = Some x" and y: "cells L (ds ! ?b) = Some y"
    by blast
  have tl: "Traverse L Lft = Inr (ps ! ?a)" and tr: "Traverse L Rgt = Inr (ps ! ?b)"
    using assms n by (simp_all add: Traverse_landing)
  have el: "element_ref L (ps ! ?a) = Inr (ds ! ?a)" and er: "element_ref L (ps ! ?b) = Inr (ds ! ?b)"
    using assms(1) a b by (simp_all add: element_ref_is_list)
  have er': "\<And>m. element_ref (L\<lparr>cells := m\<rparr>) (ps ! ?b) = Inr (ds ! ?b)"
    using er by (simp add: element_ref_def node_at_def)
  show ?thesis
    using assms(2,3) n tl tr el er er' x y
    by (simp add: Swap_def IsValidIndex_def seq_def rd_def load_def store_def)
qed

text \<open>
  Claim C10. On a well-formed list, \<open>Swap(Lft, Rgt)\<close> with two valid indices
  returns, a second \<open>Swap(Lft, Rgt)\<close> gives back the list exactly as it was (every
  node and every element), and \<open>Swap(Lft, Lft)\<close> changes nothing.
\<close>

theorem Swap_twice_restores:
  assumes "is_list L ps ds" and "Lft < lsize L" and "Rgt < lsize L"
  shows "fst (Swap Lft Rgt L) = Inr () \<and>
         Swap Lft Rgt (snd (Swap Lft Rgt L)) = (Inr (), L) \<and>
         Swap Lft Lft L = (Inr (), L)"
proof -
  let ?n = "length ps"
  from assms have n: "lsize L = ?n" by (simp add: is_list_def)
  let ?a = "ds ! landing (lsize L) Lft" and ?b = "ds ! landing (lsize L) Rgt"
  let ?m = "(cells L)(?a := cells L ?b, ?b := cells L ?a)"
  let ?L1 = "L\<lparr>cells := ?m\<rparr>"
  from assms n have a: "landing ?n Lft < ?n" and b: "landing ?n Rgt < ?n" by (simp_all add: landing_less)
  from assms(1) a b n have x: "cells L ?a \<noteq> None" and y: "cells L ?b \<noteq> None"
    by (auto simp: is_list_def)
  have s1: "Swap Lft Rgt L = (Inr (), ?L1)"
    by (rule Swap_is_list [OF assms])
  have "dom ?m = dom (cells L)"
    using x y by (auto simp: domIff)
  then have l1: "is_list ?L1 ps ds"
    by (rule is_list_cells_update [OF assms(1)])
  have "Swap Lft Rgt ?L1 = (Inr (), ?L1\<lparr>cells := (cells ?L1)(?a := cells ?L1 ?b, ?b := cells ?L1 ?a)\<rparr>)"
    using Swap_is_list [OF l1] assms(2,3) by simp
  moreover have "(cells ?L1)(?a := cells ?L1 ?b, ?b := cells ?L1 ?a) = cells L"
    by (rule ext) simp
  ultimately have s2: "Swap Lft Rgt ?L1 = (Inr (), L)"
    by simp
  have "Swap Lft Lft L = (Inr (), L\<lparr>cells := (cells L)(?a := cells L ?a, ?a := cells L ?a)\<rparr>)"
    using Swap_is_list [OF assms(1,2,2)] by simp
  moreover have "(cells L)(?a := cells L ?a, ?a := cells L ?a) = cells L"
    by (rule ext) simp
  ultimately have s3: "Swap Lft Lft L = (Inr (), L)"
    by simp
  from s1 s2 s3 show ?thesis by simp
qed

section \<open>Insertion and removal on well-formed lists\<close>

definition insert_at :: "nat \<Rightarrow> 'x \<Rightarrow> 'x list \<Rightarrow> 'x list" where
  "insert_at t x xs = take t xs @ x # drop t xs"

definition remove_at :: "nat \<Rightarrow> 'x list \<Rightarrow> 'x list" where
  "remove_at t xs = take t xs @ drop (Suc t) xs"

lemma length_insert_at [simp]: "length (insert_at t x xs) = Suc (length xs)"
  by (simp add: insert_at_def)

lemma insert_at_neq_Nil [simp]: "insert_at t x xs \<noteq> []"
  by (simp add: insert_at_def)

lemma nth_insert_at:
  "t \<le> length xs \<Longrightarrow> i \<le> length xs \<Longrightarrow>
     insert_at t x xs ! i = (if i < t then xs ! i else if i = t then x else xs ! (i - 1))"
proof -
  assume t: "t \<le> length xs" and i: "i \<le> length xs"
  consider "i < t" | "i = t" | "t < i" by linarith
  then show ?thesis
  proof cases
    case 1
    with t show ?thesis by (simp add: insert_at_def nth_append)
  next
    case 2
    with t show ?thesis by (simp add: insert_at_def nth_append)
  next
    case 3
    then obtain m where m: "i = Suc (t + m)"
      by (metis less_iff_Suc_add add_Suc_right)
    with t i show ?thesis by (simp add: insert_at_def nth_append min_def)
  qed
qed

lemma set_insert_at: "set (insert_at t x xs) = insert x (set xs)"
proof -
  have "set (take t xs) \<union> set (drop t xs) = set xs"
    by (metis append_take_drop_id set_append)
  then show ?thesis by (auto simp: insert_at_def)
qed

lemma distinct_insert_at: "distinct xs \<Longrightarrow> x \<notin> set xs \<Longrightarrow> distinct (insert_at t x xs)"
proof -
  assume d: "distinct xs" and x: "x \<notin> set xs"
  have "distinct (take t xs @ drop t xs)" using d by simp
  then have "distinct (take t xs) \<and> distinct (drop t xs) \<and> set (take t xs) \<inter> set (drop t xs) = {}"
    using distinct_append by blast
  moreover have "x \<notin> set (take t xs)" "x \<notin> set (drop t xs)"
    using x by (auto dest: in_set_takeD in_set_dropD)
  ultimately show ?thesis by (auto simp: insert_at_def)
qed

lemma length_remove_at [simp]: "t < length xs \<Longrightarrow> length (remove_at t xs) = length xs - 1"
  by (simp add: remove_at_def)

lemma nth_remove_at:
  "t < length xs \<Longrightarrow> i < length xs - 1 \<Longrightarrow>
     remove_at t xs ! i = (if i < t then xs ! i else xs ! Suc i)"
  by (auto simp: remove_at_def nth_append min_def)

lemma distinct_remove_at: "distinct xs \<Longrightarrow> distinct (remove_at t xs)"
proof -
  assume d: "distinct xs"
  have "distinct (take t xs @ drop t xs)" using d by simp
  then have "distinct (take t xs) \<and> distinct (drop t xs) \<and> set (take t xs) \<inter> set (drop t xs) = {}"
    using distinct_append by blast
  moreover have "set (drop (Suc t) xs) \<subseteq> set (drop t xs)"
    by (simp add: set_drop_subset_set_drop)
  moreover have "distinct (drop (Suc t) xs)" using d by simp
  ultimately show ?thesis by (auto simp: remove_at_def)
qed

lemma is_list_nth_neq:
  "is_list L ps ds \<Longrightarrow> i < length ps \<Longrightarrow> j < length ps \<Longrightarrow> i \<noteq> j \<Longrightarrow> ps ! i \<noteq> ps ! j"
  by (simp add: is_list_def nth_eq_iff_index_eq)

text \<open>
  A state \<open>L'\<close> that holds a new node \<open>p\<close> with element cell \<open>d\<close> linked in
  before position \<open>t\<close> of the list \<open>L\<close> is again a list.
\<close>

lemma is_list_insertI:
  assumes L: "is_list L ps ds" and t: "t \<le> length ps"
    and p: "p \<notin> set ps" and d: "d \<notin> set ds"
    and size': "lsize L' = Suc (length ps)"
    and head': "head L' = Some (if t = 0 then p else ps ! 0)"
    and tail': "tail L' = Some (if t = length ps then p else ps ! (length ps - 1))"
    and new: "nodes L' p = Some \<lparr>previous = (if t = 0 then None else Some (ps ! (t - 1))),
                                  data = Some d,
                                  nxt = (if t = length ps then None else Some (ps ! t))\<rparr>"
    and before: "0 < t \<Longrightarrow> nodes L' (ps ! (t - 1)) = Some ((link ps ds (t - 1))\<lparr>nxt := Some p\<rparr>)"
    and after: "t < length ps \<Longrightarrow> nodes L' (ps ! t) = Some ((link ps ds t)\<lparr>previous := Some p\<rparr>)"
    and others: "\<And>i. i < length ps \<Longrightarrow> i \<noteq> t \<Longrightarrow> Suc i \<noteq> t \<Longrightarrow> nodes L' (ps ! i) = nodes L (ps ! i)"
    and cells': "cells L' d \<noteq> None" "\<And>i. i < length ps \<Longrightarrow> cells L' (ds ! i) \<noteq> None"
    and brk': "p < brk L'" "d < brk L'" "brk L \<le> brk L'"
  shows "is_list L' (insert_at t p ps) (insert_at t d ds)"
proof -
  let ?n = "length ps"
  let ?ps = "insert_at t p ps" and ?ds = "insert_at t d ds"
  from L have len: "length ds = ?n" and dps: "distinct ps" and dds: "distinct ds"
    and nodes: "\<And>i. i < ?n \<Longrightarrow> nodes L (ps ! i) = Some (link ps ds i)"
    and bound: "\<And>i. i < ?n \<Longrightarrow> ps ! i < brk L \<and> ds ! i < brk L"
    by (auto simp: is_list_def)
  have nth_ps: "\<And>i. i \<le> ?n \<Longrightarrow> ?ps ! i = (if i < t then ps ! i else if i = t then p else ps ! (i - 1))"
    using t by (simp add: nth_insert_at)
  have nth_ds: "\<And>i. i \<le> ?n \<Longrightarrow> ?ds ! i = (if i < t then ds ! i else if i = t then d else ds ! (i - 1))"
    using t len by (simp add: nth_insert_at)
  have node: "nodes L' (?ps ! i) = Some (link ?ps ?ds i)" if i: "i < Suc ?n" for i
  proof -
    have E: "link ?ps ?ds i =
        \<lparr>previous = (if i = 0 then None else Some (?ps ! (i - 1))), data = Some (?ds ! i),
         nxt = (if i = ?n then None else Some (?ps ! Suc i))\<rparr>"
      by (simp add: link_def)
    consider "Suc i < t" | "Suc i = t" | "i = t" | "i = Suc t" | "Suc t < i"
      by linarith
    then show ?thesis
    proof cases
      case 1
      with t have "?ps ! i = ps ! i" "?ps ! (i - 1) = ps ! (i - 1)" "?ps ! Suc i = ps ! Suc i"
          "?ds ! i = ds ! i" "i \<noteq> ?n" "Suc i \<noteq> ?n" "i < ?n"
        by (simp_all add: nth_ps nth_ds)
      moreover from 1 t have "nodes L' (ps ! i) = Some (link ps ds i)"
        using others [of i] nodes [of i] by simp
      ultimately show ?thesis
        unfolding E by (simp add: link_def)
    next
      case 2
      with t have "?ps ! i = ps ! i" "?ps ! (i - 1) = ps ! (i - 1)" "?ps ! Suc i = p"
          "?ds ! i = ds ! i" "i \<noteq> ?n" "i < ?n"
        by (simp_all add: nth_ps nth_ds)
      moreover from 2 have "nodes L' (ps ! i) = Some ((link ps ds i)\<lparr>nxt := Some p\<rparr>)"
        using before by auto
      ultimately show ?thesis
        unfolding E by (simp add: link_def)
    next
      case 3
      with t i have "?ps ! i = p" "i \<noteq> 0 \<Longrightarrow> ?ps ! (i - 1) = ps ! (i - 1)"
          "i \<noteq> ?n \<Longrightarrow> ?ps ! Suc i = ps ! i"
          "?ds ! i = d"
        by (simp_all add: nth_ps nth_ds)
      with 3 new show ?thesis
        unfolding E by auto
    next
      case 4
      with t i have "?ps ! i = ps ! t" "?ps ! (i - 1) = p" "i \<noteq> ?n \<Longrightarrow> ?ps ! Suc i = ps ! i"
          "?ds ! i = ds ! t" "t < ?n" "i \<noteq> 0"
        by (simp_all add: nth_ps nth_ds)
      moreover from 4 i have "nodes L' (ps ! t) = Some ((link ps ds t)\<lparr>previous := Some p\<rparr>)"
        using after by auto
      ultimately show ?thesis
        unfolding E using 4 by (auto simp: link_def)
    next
      case 5
      then obtain j where j: "i = Suc j" "t < j"
        by (cases i) auto
      with t i have "?ps ! Suc j = ps ! j" "?ps ! j = ps ! (j - 1)"
          "Suc j \<noteq> ?n \<Longrightarrow> ?ps ! Suc (Suc j) = ps ! Suc j" "?ds ! Suc j = ds ! j" "j < ?n" "j \<noteq> 0"
        by (simp_all add: nth_ps nth_ds)
      moreover from j i have "nodes L' (ps ! j) = Some (link ps ds j)"
        using others [of j] nodes [of j] by simp
      ultimately show ?thesis
        unfolding E j by (auto simp: link_def)
    qed
  qed
  have cell: "cells L' (?ds ! i) \<noteq> None" if i: "i < Suc ?n" for i
  proof -
    have D: "?ds ! i = (if i < t then ds ! i else if i = t then d else ds ! (i - 1))"
      using i by (simp add: nth_ds)
    consider "i < t" | "i = t" | "t < i" by linarith
    then show ?thesis
    proof cases
      case 1
      with t have "i < ?n" by simp
      from cells'(2) [OF this] 1 show ?thesis unfolding D by auto
    next
      case 2
      with cells'(1) show ?thesis unfolding D by simp
    next
      case 3
      with i have "i - 1 < ?n" by simp
      from cells'(2) [OF this] 3 show ?thesis unfolding D by auto
    qed
  qed
  have bnd: "?ps ! i < brk L' \<and> ?ds ! i < brk L'" if i: "i < Suc ?n" for i
  proof -
    have A: "?ps ! i = (if i < t then ps ! i else if i = t then p else ps ! (i - 1))"
      using i by (simp add: nth_ps)
    have D: "?ds ! i = (if i < t then ds ! i else if i = t then d else ds ! (i - 1))"
      using i by (simp add: nth_ds)
    consider "i < t" | "i = t" | "t < i" by linarith
    then show ?thesis
    proof cases
      case 1
      with t have "i < ?n" by simp
      from bound [OF this] 1 brk'(3) show ?thesis unfolding A D by auto
    next
      case 2
      with brk'(1,2) show ?thesis unfolding A D by simp
    next
      case 3
      with i have "i - 1 < ?n" by simp
      from bound [OF this] 3 brk'(3) show ?thesis unfolding A D by auto
    qed
  qed
  have "?ps ! 0 = (if t = 0 then p else ps ! 0)"
    by (simp add: nth_ps)
  moreover have "?ps ! ?n = (if t = ?n then p else ps ! (?n - 1))"
    using t by (auto simp: nth_ps)
  ultimately show ?thesis
    using size' head' tail' len dps dds p d node cell bnd
    by (simp add: is_list_def distinct_insert_at)
qed


text \<open>
  The position at which \<open>Insert(Index, Value)\<close> places its node: the end for
  \<open>Index = size\<close>, otherwise before the node that \<open>Traverse\<close> finds.
\<close>

definition insert_pos :: "nat \<Rightarrow> nat \<Rightarrow> nat" where
  "insert_pos n Index = (if Index = n then n else landing n Index)"

lemma is_list_fresh:
  assumes "is_list L ps ds"
  shows "brk L + 1 \<notin> set ps" and "brk L \<notin> set ds"
proof -
  from assms have b: "\<And>i. i < length ps \<Longrightarrow> ps ! i < brk L \<and> ds ! i < brk L"
    and len: "length ds = length ps"
    by (auto simp: is_list_def)
  show "brk L + 1 \<notin> set ps"
  proof
    assume "brk L + 1 \<in> set ps"
    then obtain i where "i < length ps" "ps ! i = brk L + 1"
      by (auto simp: in_set_conv_nth)
    with b [of i] show False by simp
  qed
  show "brk L \<notin> set ds"
  proof
    assume "brk L \<in> set ds"
    then obtain i where "i < length ds" "ds ! i = brk L"
      by (auto simp: in_set_conv_nth)
    with b [of i] len show False by simp
  qed
qed

lemma Insert_is_list:
  assumes L: "is_list L ps ds" and Index: "Index \<le> lsize L"
  shows "\<exists>L'. Insert Index v L = (Inr (brk L), L') \<and>
           is_list L' (insert_at (insert_pos (lsize L) Index) (brk L + 1) ps)
                      (insert_at (insert_pos (lsize L) Index) (brk L) ds) \<and>
           cells L' = (cells L)(brk L \<mapsto> v) \<and> brk L' = brk L + 2 \<and>
           (\<forall>q. q \<notin> set ps \<longrightarrow> q \<noteq> brk L + 1 \<longrightarrow> nodes L' q = nodes L q)"
proof -
  let ?n = "length ps" and ?p = "brk L + 1" and ?d = "brk L"
  have mem: "\<And>i. i < ?n \<Longrightarrow> ps ! i \<in> set ps" by simp
  from L have n: "lsize L = ?n" and len: "length ds = ?n"
    and nodes: "\<And>i. i < ?n \<Longrightarrow> nodes L (ps ! i) = Some (link ps ds i)"
    and cells: "\<And>i. i < ?n \<Longrightarrow> cells L (ds ! i) \<noteq> None"
    and bound: "\<And>i. i < ?n \<Longrightarrow> ps ! i < brk L \<and> ds ! i < brk L"
    and hd: "head L = (if ps = [] then None else Some (ps ! 0))"
    and tl: "tail L = (if ps = [] then None else Some (ps ! (?n - 1)))"
    by (auto simp: is_list_def)
  note fresh = is_list_fresh [OF L]
  have neq: "\<And>i. i < ?n \<Longrightarrow> ps ! i \<noteq> ?p \<and> ds ! i \<noteq> ?d"
    using bound by fastforce
  consider (empty) "Index = ?n" "?n = 0" | (append) "Index = ?n" "0 < ?n" | (inner) "Index < ?n"
    using Index n by linarith
  then show ?thesis
  proof cases
    case empty
    let ?L' = "L\<lparr>nodes := (nodes L)(?p \<mapsto> \<lparr>previous = None, data = Some ?d, nxt = None\<rparr>),
                  cells := (cells L)(?d \<mapsto> v), brk := brk L + 2,
                  head := Some ?p, tail := Some ?p, lsize := 1\<rparr>"
    from empty n have ins: "Insert Index v L = (Inr ?d, ?L')"
      by (simp add: Insert_def IsEmpty_def new_Node_def Let_def rd_def node_at_def Node_deref_def)
    have fr: "\<forall>q. q \<notin> set ps \<longrightarrow> q \<noteq> ?p \<longrightarrow> nodes ?L' q = nodes L q"
      by simp
    have "is_list ?L' (insert_at 0 ?p ps) (insert_at 0 ?d ds)"
      using empty fresh by (intro is_list_insertI [OF L]) simp_all
    with ins empty n fr show ?thesis
      by (simp add: insert_pos_def)
  next
    case append
    let ?t = "ps ! (?n - 1)"
    let ?L' = "L\<lparr>nodes := (nodes L)(?p \<mapsto> \<lparr>previous = Some ?t, data = Some ?d, nxt = None\<rparr>,
                                      ?t \<mapsto> (link ps ds (?n - 1))\<lparr>nxt := Some ?p\<rparr>),
                  cells := (cells L)(?d \<mapsto> v), brk := brk L + 2,
                  tail := Some ?p, lsize := Suc ?n\<rparr>"
    from append have ne: "ps \<noteq> []" by auto
    from append neq [of "?n - 1"] have tp: "?t \<noteq> ?p" by simp
    from append n ne tl nodes [of "?n - 1"] tp have ins: "Insert Index v L = (Inr ?d, ?L')"
      by (simp add: Insert_def IsEmpty_def new_Node_def Let_def rd_def node_at_def Node_deref_def
          seq_def assign_node_def arrow_def)
    have fr: "\<forall>q. q \<notin> set ps \<longrightarrow> q \<noteq> ?p \<longrightarrow> nodes ?L' q = nodes L q"
      using mem [of "?n - 1"] append by auto
    have "is_list ?L' (insert_at ?n ?p ps) (insert_at ?n ?d ds)"
    proof (intro is_list_insertI [OF L])
      show "head ?L' = Some (if ?n = 0 then ?p else ps ! 0)"
        using append hd ne by simp
      show "nodes ?L' ?p = Some \<lparr>previous = (if ?n = 0 then None else Some (ps ! (?n - 1))),
                 data = Some ?d, nxt = (if ?n = ?n then None else Some (ps ! ?n))\<rparr>"
        using append tp by simp
      show "nodes ?L' (ps ! i) = nodes L (ps ! i)" if "i < ?n" "i \<noteq> ?n" "Suc i \<noteq> ?n" for i
      proof -
        from that append have "?n - 1 < ?n" "i \<noteq> ?n - 1" by auto
        from is_list_nth_neq [OF L that(1) this] neq [OF that(1)]
        show ?thesis by simp
      qed
      show "cells ?L' (ds ! i) \<noteq> None" if "i < ?n" for i
        using that cells [of i] by simp
    qed (use fresh in simp_all)
    with ins append n fr show ?thesis
      by (simp add: insert_pos_def)
  next
    case inner
    let ?t = "landing ?n Index"
    from inner have t: "?t < ?n" by (rule landing_less)
    have trav: "Traverse L Index = Inr (ps ! ?t)"
      using L inner by (rule Traverse_landing)
    let ?prev = "if ?t = 0 then None else Some (ps ! (?t - 1))"
    have prev: "arrow previous (Some (ps ! ?t)) L = Inr ?prev"
      using nodes [OF t] by (simp add: arrow_def node_at_def link_def)
    from neq [OF t] have tp: "ps ! ?t \<noteq> ?p" by simp
    from inner have ne: "ps \<noteq> []" by auto
    show ?thesis
    proof (cases "?t = 0")
      case True
      let ?L' = "L\<lparr>nodes := (nodes L)(?p \<mapsto> \<lparr>previous = None, data = Some ?d, nxt = Some (ps ! 0)\<rparr>,
                                        ps ! 0 \<mapsto> (link ps ds 0)\<lparr>previous := Some ?p\<rparr>),
                    cells := (cells L)(?d \<mapsto> v), brk := brk L + 2,
                    head := Some ?p, lsize := Suc ?n\<rparr>"
      from inner n trav prev True nodes [OF t] tp have ins: "Insert Index v L = (Inr ?d, ?L')"
        by (simp add: Insert_def new_Node_def Let_def rd_def node_at_def seq_def assign_node_def
            arrow_def)
      have fr: "\<forall>q. q \<notin> set ps \<longrightarrow> q \<noteq> ?p \<longrightarrow> nodes ?L' q = nodes L q"
        using mem [of 0] ne by auto
      have "is_list ?L' (insert_at 0 ?p ps) (insert_at 0 ?d ds)"
      proof (intro is_list_insertI [OF L])
        show "tail ?L' = Some (if 0 = ?n then ?p else ps ! (?n - 1))"
          using inner tl by auto
        show "nodes ?L' ?p = Some \<lparr>previous = (if (0::nat) = 0 then None else Some (ps ! (0 - 1))),
                 data = Some ?d, nxt = (if 0 = ?n then None else Some (ps ! 0))\<rparr>"
          using inner tp True by auto
        show "nodes ?L' (ps ! i) = nodes L (ps ! i)" if "i < ?n" "i \<noteq> 0" "Suc i \<noteq> 0" for i
        proof -
          from t True have "0 < ?n" by simp
          from is_list_nth_neq [OF L that(1) this that(2)] neq [OF that(1)]
          show ?thesis by simp
        qed
        show "cells ?L' (ds ! i) \<noteq> None" if "i < ?n" for i
          using that cells [of i] by simp
      qed (use fresh inner in simp_all)
      with ins inner n True fr show ?thesis
        by (simp add: insert_pos_def)
    next
      case False
      let ?b = "ps ! (?t - 1)"
      from False t have b: "?t - 1 < ?n" "?t - 1 \<noteq> ?t" by simp_all
      from is_list_nth_neq [OF L b(1) t b(2)] have bt: "?b \<noteq> ps ! ?t" .
      from neq [OF b(1)] have bp: "?b \<noteq> ?p" by simp
      let ?L' = "L\<lparr>nodes := (nodes L)(?p \<mapsto> \<lparr>previous = Some ?b, data = Some ?d, nxt = Some (ps ! ?t)\<rparr>,
                                        ?b \<mapsto> (link ps ds (?t - 1))\<lparr>nxt := Some ?p\<rparr>,
                                        ps ! ?t \<mapsto> (link ps ds ?t)\<lparr>previous := Some ?p\<rparr>),
                    cells := (cells L)(?d \<mapsto> v), brk := brk L + 2, lsize := Suc ?n\<rparr>"
      from inner n trav prev False nodes [OF t] nodes [OF b(1)] tp bt bp
      have ins: "Insert Index v L = (Inr ?d, ?L')"
        by (simp add: Insert_def new_Node_def Let_def rd_def node_at_def seq_def assign_node_def
            arrow_def)
      have fr: "\<forall>q. q \<notin> set ps \<longrightarrow> q \<noteq> ?p \<longrightarrow> nodes ?L' q = nodes L q"
        using mem [OF t] mem [OF b(1)] by auto
      have "is_list ?L' (insert_at ?t ?p ps) (insert_at ?t ?d ds)"
      proof (intro is_list_insertI [OF L])
        show "head ?L' = Some (if ?t = 0 then ?p else ps ! 0)"
          using inner hd False by auto
        show "tail ?L' = Some (if ?t = ?n then ?p else ps ! (?n - 1))"
          using inner tl t by auto
        show "nodes ?L' ?p = Some \<lparr>previous = (if ?t = 0 then None else Some (ps ! (?t - 1))),
                 data = Some ?d, nxt = (if ?t = ?n then None else Some (ps ! ?t))\<rparr>"
          using t tp bp False by simp
        show "nodes ?L' (ps ! (?t - 1)) = Some ((link ps ds (?t - 1))\<lparr>nxt := Some ?p\<rparr>)"
          using bt by simp
        show "nodes ?L' (ps ! i) = nodes L (ps ! i)" if "i < ?n" "i \<noteq> ?t" "Suc i \<noteq> ?t" for i
        proof -
          from that False have "i \<noteq> ?t - 1" by auto
          from is_list_nth_neq [OF L that(1) b(1) this] is_list_nth_neq [OF L that(1) t that(2)]
            neq [OF that(1)]
          show ?thesis by simp
        qed
        show "cells ?L' (ds ! i) \<noteq> None" if "i < ?n" for i
          using that cells [of i] by simp
      qed (use fresh t in simp_all)
      with ins inner n fr show ?thesis
        by (simp add: insert_pos_def)
    qed
  qed
qed

text \<open>
  A state \<open>L'\<close> in which the node at position \<open>t\<close> is unlinked from its neighbours,
  and the rest is as in the list \<open>L\<close>, is again a list.
\<close>

lemma is_list_removeI:
  assumes L: "is_list L ps ds" and t: "t < length ps"
    and size': "lsize L' = length ps - 1"
    and head': "head L' = (if length ps = 1 then None else Some (if t = 0 then ps ! 1 else ps ! 0))"
    and tail': "tail L' = (if length ps = 1 then None
                           else Some (if Suc t = length ps then ps ! (length ps - 2)
                                      else ps ! (length ps - 1)))"
    and before: "0 < t \<Longrightarrow> nodes L' (ps ! (t - 1)) =
        Some ((link ps ds (t - 1))\<lparr>nxt := (if Suc t = length ps then None else Some (ps ! Suc t))\<rparr>)"
    and after: "Suc t < length ps \<Longrightarrow> nodes L' (ps ! Suc t) =
        Some ((link ps ds (Suc t))\<lparr>previous := (if t = 0 then None else Some (ps ! (t - 1)))\<rparr>)"
    and others: "\<And>i. i < length ps \<Longrightarrow> i \<noteq> t \<Longrightarrow> Suc i \<noteq> t \<Longrightarrow> i \<noteq> Suc t \<Longrightarrow>
        nodes L' (ps ! i) = nodes L (ps ! i)"
    and cells': "\<And>i. i < length ps \<Longrightarrow> i \<noteq> t \<Longrightarrow> cells L' (ds ! i) \<noteq> None"
    and brk': "brk L \<le> brk L'"
  shows "is_list L' (remove_at t ps) (remove_at t ds)"
proof -
  let ?n = "length ps"
  let ?ps = "remove_at t ps" and ?ds = "remove_at t ds"
  from L have len: "length ds = ?n" and dps: "distinct ps" and dds: "distinct ds"
    and nodes: "\<And>i. i < ?n \<Longrightarrow> nodes L (ps ! i) = Some (link ps ds i)"
    and bound: "\<And>i. i < ?n \<Longrightarrow> ps ! i < brk L \<and> ds ! i < brk L"
    by (auto simp: is_list_def)
  have lps: "length ?ps = ?n - 1" and lds: "length ?ds = ?n - 1"
    using t len by simp_all
  have nth_ps: "\<And>i. i < ?n - 1 \<Longrightarrow> ?ps ! i = (if i < t then ps ! i else ps ! Suc i)"
    using t by (simp add: nth_remove_at)
  have nth_ds: "\<And>i. i < ?n - 1 \<Longrightarrow> ?ds ! i = (if i < t then ds ! i else ds ! Suc i)"
    using t len by (simp add: nth_remove_at)
  have node: "nodes L' (?ps ! i) = Some (link ?ps ?ds i)" if i: "i < ?n - 1" for i
  proof -
    have E: "link ?ps ?ds i =
        \<lparr>previous = (if i = 0 then None else Some (?ps ! (i - 1))), data = Some (?ds ! i),
         nxt = (if Suc i = ?n - 1 then None else Some (?ps ! Suc i))\<rparr>"
      by (simp add: link_def lps)
    consider "Suc i < t" | "Suc i = t" | "i = t" | "t < i"
      by linarith
    then show ?thesis
    proof cases
      case 1
      with t i have "?ps ! i = ps ! i" "?ps ! (i - 1) = ps ! (i - 1)" "?ps ! Suc i = ps ! Suc i"
          "?ds ! i = ds ! i" "Suc i \<noteq> ?n - 1" "Suc i \<noteq> ?n" "i < ?n"
        by (auto simp: nth_ps nth_ds)
      moreover from 1 t have "nodes L' (ps ! i) = Some (link ps ds i)"
        using others [of i] nodes [of i] by simp
      ultimately show ?thesis
        unfolding E by (simp add: link_def)
    next
      case 2
      with t i have "?ps ! i = ps ! i" "?ps ! (i - 1) = ps ! (i - 1)"
          "Suc i \<noteq> ?n - 1 \<Longrightarrow> ?ps ! Suc i = ps ! Suc t" "?ds ! i = ds ! i" "i < ?n"
          "(Suc i = ?n - 1) = (Suc t = ?n)"
        by (auto simp: nth_ps nth_ds)
      moreover from 2 have "nodes L' (ps ! i) =
          Some ((link ps ds i)\<lparr>nxt := (if Suc t = ?n then None else Some (ps ! Suc t))\<rparr>)"
        using before by auto
      ultimately show ?thesis
        unfolding E by (auto simp: link_def)
    next
      case 3
      with t i have "?ps ! i = ps ! Suc t" "i \<noteq> 0 \<Longrightarrow> ?ps ! (i - 1) = ps ! (t - 1)"
          "Suc i \<noteq> ?n - 1 \<Longrightarrow> ?ps ! Suc i = ps ! Suc (Suc t)" "?ds ! i = ds ! Suc t" "Suc t < ?n"
          "(Suc i = ?n - 1) = (Suc (Suc t) = ?n)"
        by (auto simp: nth_ps nth_ds)
      moreover from 3 i have "nodes L' (ps ! Suc t) =
          Some ((link ps ds (Suc t))\<lparr>previous := (if t = 0 then None else Some (ps ! (t - 1)))\<rparr>)"
        using after by auto
      ultimately show ?thesis
        unfolding E using 3 by (auto simp: link_def)
    next
      case 4
      then obtain j where j: "i = Suc j" "t \<le> j"
        by (cases i) auto
      with t i have "?ps ! Suc j = ps ! Suc (Suc j)" "?ps ! j = ps ! Suc j"
          "Suc (Suc j) \<noteq> ?n - 1 \<Longrightarrow> ?ps ! Suc (Suc j) = ps ! Suc (Suc (Suc j))"
          "?ds ! Suc j = ds ! Suc (Suc j)" "Suc (Suc j) < ?n"
          "(Suc (Suc j) = ?n - 1) = (Suc (Suc (Suc j)) = ?n)"
        by (auto simp: nth_ps nth_ds)
      moreover from j i have "nodes L' (ps ! Suc (Suc j)) = Some (link ps ds (Suc (Suc j)))"
        using others [of "Suc (Suc j)"] nodes [of "Suc (Suc j)"] by simp
      ultimately show ?thesis
        unfolding j(1) using t by (auto simp: link_def lps)
    qed
  qed
  have cell: "cells L' (?ds ! i) \<noteq> None" if i: "i < ?n - 1" for i
  proof (cases "i < t")
    case True
    with i t cells' [of i] show ?thesis by (simp add: nth_ds)
  next
    case False
    with i t cells' [of "Suc i"] show ?thesis by (simp add: nth_ds)
  qed
  have bnd: "?ps ! i < brk L' \<and> ?ds ! i < brk L'" if i: "i < ?n - 1" for i
  proof (cases "i < t")
    case True
    with i have "i < ?n" by simp
    from bound [OF this] True i brk' show ?thesis by (auto simp: nth_ps nth_ds)
  next
    case False
    with i have "Suc i < ?n" by simp
    from bound [OF this] False i brk' show ?thesis by (auto simp: nth_ps nth_ds)
  qed
  have e: "(?ps = []) = (?n = 1)"
    using lps t by (metis One_nat_def Suc_pred length_0_conv length_greater_0_conv less_nat_zero_code list.size(3) zero_less_diff diff_is_0_eq' le_numeral_extra(4) nat_neq_iff)
  have h: "?n \<noteq> 1 \<Longrightarrow> ?ps ! 0 = (if t = 0 then ps ! 1 else ps ! 0)"
    using t by (auto simp: nth_ps)
  have l: "?ps ! (?n - 1 - 1) = (if Suc t = ?n then ps ! (?n - 2) else ps ! (?n - 1))"
    if "?n \<noteq> 1"
  proof -
    from that t have n2: "2 \<le> ?n" by simp
    then have a: "Suc (?n - 2) = ?n - 1" "?n - 1 - 1 = ?n - 2" "?n - 2 < ?n - 1"
      by simp_all
    from t n2 have b: "(?n - 2 < t) = (Suc t = ?n)" by auto
    from nth_ps [OF a(3)] show ?thesis
      unfolding a b by simp
  qed
  show ?thesis
    using size' head' tail' len dps dds node cell bnd e h l lps lds
    by (simp add: is_list_def distinct_remove_at)
qed


lemma landing_inner:
  assumes "Index < n" and "Index \<noteq> 0" and "Index \<noteq> n - 1"
  shows "0 < landing n Index" and "Suc (landing n Index) < n"
  using assms by (auto simp: landing_def)

lemma Erase_is_list:
  assumes L: "is_list L ps ds" and Index: "Index < lsize L"
  shows "\<exists>L'. Erase Index L = (Inr (), L') \<and>
           is_list L' (remove_at (landing (lsize L) Index) ps)
                      (remove_at (landing (lsize L) Index) ds) \<and>
           brk L' = brk L \<and>
           (\<forall>q. q \<notin> set ps \<longrightarrow> nodes L' q = nodes L q) \<and>
           (\<forall>d. d \<notin> set ds \<longrightarrow> cells L' d = cells L d)"
proof -
  let ?n = "length ps"
  have mem: "\<And>i. i < ?n \<Longrightarrow> ps ! i \<in> set ps" by simp
  from L have n: "lsize L = ?n" and len: "length ds = ?n"
    and nodes: "\<And>i. i < ?n \<Longrightarrow> nodes L (ps ! i) = Some (link ps ds i)"
    and cells: "\<And>i. i < ?n \<Longrightarrow> cells L (ds ! i) \<noteq> None"
    and hd: "head L = (if ps = [] then None else Some (ps ! 0))"
    and tl: "tail L = (if ps = [] then None else Some (ps ! (?n - 1)))"
    and dds: "distinct ds"
    by (auto simp: is_list_def)
  from Index n have ne: "ps \<noteq> []" and z: "0 < ?n" by auto
  note neq = is_list_nth_neq [OF L]
  have dneq: "\<And>i j. i < ?n \<Longrightarrow> j < ?n \<Longrightarrow> i \<noteq> j \<Longrightarrow> ds ! i \<noteq> ds ! j"
    using dds len by (simp add: nth_eq_iff_index_eq)
  have cell: "\<And>i. i < ?n \<Longrightarrow> \<exists>x. cells L (ds ! i) = Some x"
    using cells by auto
  have dmem: "\<And>i. i < ?n \<Longrightarrow> ds ! i \<in> set ds" using len by simp
  consider (only) "Index = 0" "?n = 1" | (first) "Index = 0" "1 < ?n"
    | (last) "Index \<noteq> 0" "Index = ?n - 1" | (middle) "Index \<noteq> 0" "Index \<noteq> ?n - 1"
    using Index n by linarith
  then show ?thesis
  proof cases
    case only
    let ?L' = "L\<lparr>cells := (cells L)(ds ! 0 := None), nodes := (nodes L)(ps ! 0 := None),
                  head := None, tail := None, lsize := 0\<rparr>"
    from cell [OF z] obtain x where x: "cells L (ds ! 0) = Some x" by auto
    have f: "data (link ps ds 0) = Some (ds ! 0)"
      by (simp add: link_def)
    from only n ne hd nodes [OF z] x f have er: "Erase Index L = (Inr (), ?L')"
      by (simp add: Erase_def IsValidIndex_def Erase_only_def seq_def rd_def arrow_def node_at_def
          delete_cell_def assign_node_def delete_node_def)
    have fr: "\<forall>q. q \<notin> set ps \<longrightarrow> nodes ?L' q = nodes L q"
        "\<forall>d. d \<notin> set ds \<longrightarrow> cells ?L' d = cells L d"
      using mem [OF z] dmem [OF z] by auto
    have "is_list ?L' (remove_at 0 ps) (remove_at 0 ds)"
      using only by (intro is_list_removeI [OF L]) simp_all
    with er only n fr show ?thesis
      by (simp add: landing_def)
  next
    case first
    let ?L' = "L\<lparr>head := Some (ps ! 1), cells := (cells L)(ds ! 0 := None),
                  nodes := (nodes L)(ps ! 0 := None, ps ! 1 \<mapsto> (link ps ds 1)\<lparr>previous := None\<rparr>),
                  lsize := ?n - 1\<rparr>"
    from cell [OF z] obtain x where x: "cells L (ds ! 0) = Some x" by auto
    from first have one: "1 < ?n" "(0::nat) \<noteq> 1" by simp_all
    from neq [OF z one] have d01: "ps ! 0 \<noteq> ps ! 1" .
    from first have f: "data (link ps ds 0) = Some (ds ! 0)" "nxt (link ps ds 0) = Some (ps ! 1)"
        "previous (link ps ds 1) = Some (ps ! 0)"
      by (simp_all add: link_def)
    from first n ne hd nodes [OF z] nodes [OF one(1)] x d01 f
    have er: "Erase Index L = (Inr (), ?L')"
      by (simp add: Erase_def IsValidIndex_def Erase_first_def seq_def rd_def arrow_def node_at_def
          delete_cell_def assign_node_def delete_node_def)
    have fr: "\<forall>q. q \<notin> set ps \<longrightarrow> nodes ?L' q = nodes L q"
        "\<forall>d. d \<notin> set ds \<longrightarrow> cells ?L' d = cells L d"
      using mem [OF z] mem [OF one(1)] dmem [OF z] by auto
    have "is_list ?L' (remove_at 0 ps) (remove_at 0 ds)"
    proof (intro is_list_removeI [OF L])
      show "tail ?L' = (if ?n = 1 then None
          else Some (if Suc 0 = ?n then ps ! (?n - 2) else ps ! (?n - 1)))"
        using first tl ne by simp
      show "nodes ?L' (ps ! i) = nodes L (ps ! i)"
        if "i < ?n" "i \<noteq> 0" "Suc i \<noteq> 0" "i \<noteq> Suc 0" for i
      proof -
        from that have "i \<noteq> 1" by simp
        from neq [OF that(1) z that(2)] neq [OF that(1) one(1) this] show ?thesis by simp
      qed
      show "cells ?L' (ds ! i) \<noteq> None" if "i < ?n" "i \<noteq> 0" for i
        using that dneq [OF that(1) z that(2)] cells [of i] by simp
    qed (use first d01 ne in simp_all)
    with er first n fr show ?thesis
      by (simp add: landing_def)
  next
    case last
    let ?m = "?n - 1"
    from last Index n have m: "?m < ?n" "?m - 1 < ?n" "?m \<noteq> 0" "?m - 1 \<noteq> ?m" "Suc ?m = ?n"
      by simp_all
    from m(3) have sm: "Suc (?m - 1) = ?m" by simp
    let ?L' = "L\<lparr>tail := Some (ps ! (?m - 1)), cells := (cells L)(ds ! ?m := None),
                  nodes := (nodes L)(ps ! ?m := None,
                                     ps ! (?m - 1) \<mapsto> (link ps ds (?m - 1))\<lparr>nxt := None\<rparr>),
                  lsize := ?n - 1\<rparr>"
    from cell [OF m(1)] obtain x where x: "cells L (ds ! ?m) = Some x" by auto
    from neq [OF m(2,1,4)] have dm: "ps ! (?m - 1) \<noteq> ps ! ?m" .
    have f: "data (link ps ds ?m) = Some (ds ! ?m)"
        "previous (link ps ds ?m) = Some (ps ! (?m - 1))"
        "nxt (link ps ds (?m - 1)) = Some (ps ! ?m)"
      unfolding link_def sm using m by simp_all
    from last m n ne tl nodes [OF m(1)] nodes [OF m(2)] x dm f
    have er: "Erase Index L = (Inr (), ?L')"
      by (simp add: Erase_def IsValidIndex_def Erase_last_def seq_def rd_def arrow_def node_at_def
          delete_cell_def assign_node_def delete_node_def)
    have fr: "\<forall>q. q \<notin> set ps \<longrightarrow> nodes ?L' q = nodes L q"
        "\<forall>d. d \<notin> set ds \<longrightarrow> cells ?L' d = cells L d"
      using mem [OF m(1)] mem [OF m(2)] dmem [OF m(1)] by auto
    have "is_list ?L' (remove_at ?m ps) (remove_at ?m ds)"
    proof (intro is_list_removeI [OF L])
      show "head ?L' = (if ?n = 1 then None else Some (if ?m = 0 then ps ! 1 else ps ! 0))"
        using m hd ne by simp
      show "tail ?L' = (if ?n = 1 then None
          else Some (if Suc ?m = ?n then ps ! (?n - 2) else ps ! (?n - 1)))"
        using m by (simp add: numeral_2_eq_2)
      show "nodes ?L' (ps ! (?m - 1)) =
          Some ((link ps ds (?m - 1))\<lparr>nxt := (if Suc ?m = ?n then None else Some (ps ! Suc ?m))\<rparr>)"
        using m dm by simp
      show "nodes ?L' (ps ! i) = nodes L (ps ! i)"
        if "i < ?n" "i \<noteq> ?m" "Suc i \<noteq> ?m" "i \<noteq> Suc ?m" for i
      proof -
        from that m have "i \<noteq> ?m - 1" by auto
        from neq [OF that(1) m(1) that(2)] neq [OF that(1) m(2) this] show ?thesis by simp
      qed
      show "cells ?L' (ds ! i) \<noteq> None" if "i < ?n" "i \<noteq> ?m" for i
        using that dneq [OF that(1) m(1) that(2)] cells [of i] by simp
    qed (use m ne in simp_all)
    with er last n fr show ?thesis
      by (simp add: landing_def)
  next
    case middle
    let ?t = "landing ?n Index"
    from Index n have I: "Index < ?n" by simp
    from landing_inner [OF I middle] have t: "0 < ?t" "Suc ?t < ?n" .
    then have ix: "?t < ?n" "?t - 1 < ?n" "?t - 1 \<noteq> ?t" "?t - 1 \<noteq> Suc ?t" "?t \<noteq> Suc ?t"
      "Suc (?t - 1) = ?t"
      by simp_all
    have trav: "Traverse L Index = Inr (ps ! ?t)"
      using L I by (rule Traverse_landing)
    from cell [OF ix(1)] obtain x where x: "cells L (ds ! ?t) = Some x" by auto
    from neq [OF ix(2,1,3)] have d1: "ps ! (?t - 1) \<noteq> ps ! ?t" .
    from neq [OF ix(2) t(2) ix(4)] have d2: "ps ! (?t - 1) \<noteq> ps ! Suc ?t" .
    from neq [OF ix(1) t(2) ix(5)] have d3: "ps ! ?t \<noteq> ps ! Suc ?t" .
    let ?L' = "L\<lparr>cells := (cells L)(ds ! ?t := None),
                  nodes := (nodes L)(ps ! ?t := None,
                     ps ! Suc ?t \<mapsto> (link ps ds (Suc ?t))\<lparr>previous := Some (ps ! (?t - 1))\<rparr>,
                     ps ! (?t - 1) \<mapsto> (link ps ds (?t - 1))\<lparr>nxt := Some (ps ! Suc ?t)\<rparr>),
                  lsize := ?n - 1\<rparr>"
    from t have f: "data (link ps ds ?t) = Some (ds ! ?t)"
        "previous (link ps ds ?t) = Some (ps ! (?t - 1))"
        "nxt (link ps ds ?t) = Some (ps ! Suc ?t)"
        "previous (link ps ds (Suc ?t)) = Some (ps ! ?t)"
      by (simp_all add: link_def)
    from middle I n trav nodes [OF ix(1)] nodes [OF ix(2)] nodes [OF t(2)] x d1 d2 d3 f
    have er: "Erase Index L = (Inr (), ?L')"
      by (simp add: Erase_def IsValidIndex_def Erase_middle_def seq_def rd_def arrow_def node_at_def
          delete_cell_def assign_node_def delete_node_def ret_def)
    have fr: "\<forall>q. q \<notin> set ps \<longrightarrow> nodes ?L' q = nodes L q"
        "\<forall>d. d \<notin> set ds \<longrightarrow> cells ?L' d = cells L d"
      using mem [OF ix(1)] mem [OF ix(2)] mem [OF t(2)] dmem [OF ix(1)] by auto
    have "is_list ?L' (remove_at ?t ps) (remove_at ?t ds)"
    proof (intro is_list_removeI [OF L])
      show "head ?L' = (if ?n = 1 then None else Some (if ?t = 0 then ps ! 1 else ps ! 0))"
        using t hd ne by simp
      show "tail ?L' = (if ?n = 1 then None
          else Some (if Suc ?t = ?n then ps ! (?n - 2) else ps ! (?n - 1)))"
        using t tl ne by simp
      show "nodes ?L' (ps ! (?t - 1)) =
          Some ((link ps ds (?t - 1))\<lparr>nxt := (if Suc ?t = ?n then None else Some (ps ! Suc ?t))\<rparr>)"
        using t by simp
      show "nodes ?L' (ps ! Suc ?t) =
          Some ((link ps ds (Suc ?t))\<lparr>previous := (if ?t = 0 then None else Some (ps ! (?t - 1)))\<rparr>)"
        using t d2 by simp
      show "nodes ?L' (ps ! i) = nodes L (ps ! i)"
        if "i < ?n" "i \<noteq> ?t" "Suc i \<noteq> ?t" "i \<noteq> Suc ?t" for i
      proof -
        from that t have "i \<noteq> ?t - 1" by auto
        from neq [OF that(1) ix(1) that(2)] neq [OF that(1) ix(2) this] neq [OF that(1) t(2) that(4)]
        show ?thesis by simp
      qed
      show "cells ?L' (ds ! i) \<noteq> None" if "i < ?n" "i \<noteq> ?t" for i
        using that dneq [OF that(1) ix(1) that(2)] cells [of i] by simp
    qed (use ix ne in simp_all)
    with er n fr show ?thesis
      by simp
  qed
qed

section \<open>The other member functions on well-formed lists\<close>

text \<open>
  \<open>Clear\<close> walks over the nodes that are left, deleting each; it returns, and the
  list is empty afterwards.
\<close>

lemma Clear_loop_is_list:
  assumes "length ds = length ps" and "distinct ps" and "distinct ds"
    and "\<And>i. k \<le> i \<Longrightarrow> i < length ps \<Longrightarrow> nodes L (ps ! i) = Some (link ps ds i)"
    and "\<And>i. k \<le> i \<Longrightarrow> i < length ps \<Longrightarrow> cells L (ds ! i) \<noteq> None"
    and "k \<le> length ps"
  shows "\<exists>L'. Clear_loop (if k = length ps then None else Some (ps ! k)) L = Some (Inr (), L') \<and>
           lsize L' = lsize L \<and> head L' = head L \<and> tail L' = tail L \<and> brk L' = brk L \<and>
           (\<forall>q. q \<notin> set ps \<longrightarrow> nodes L' q = nodes L q) \<and>
           (\<forall>d. d \<notin> set ds \<longrightarrow> cells L' d = cells L d)"
  using assms
proof (induction "length ps - k" arbitrary: k L)
  case 0
  then have "k = length ps" by simp
  then show ?case
    by (subst Clear_loop.simps) simp
next
  case (Suc m)
  then have k: "k < length ps" by simp
  let ?p = "ps ! k" and ?d = "ds ! k"
  from Suc.prems(4) [of k] k have node: "nodes L ?p = Some (link ps ds k)" by simp
  from Suc.prems(5) [of k] k obtain x where x: "cells L ?d = Some x" by auto
  let ?L1 = "L\<lparr>cells := (cells L)(?d := None), nodes := (nodes L)(?p := None)\<rparr>"
  let ?next = "if Suc k = length ps then None else Some (ps ! Suc k)"
  have body: "seq (rd (arrow nxt (Some ?p)))
                (\<lambda>Next. seq (rd (arrow data (Some ?p)))
                (\<lambda>d. seq (delete_cell d)
                (\<lambda>_. seq (assign_node (Some ?p) (\<lambda>n. n\<lparr>data := None\<rparr>))
                (\<lambda>_. seq (delete_node (Some ?p))
                (\<lambda>_. ret Next))))) L = (Inr ?next, ?L1)"
    using node x
    by (simp add: seq_def rd_def arrow_def node_at_def delete_cell_def assign_node_def
        delete_node_def ret_def link_def)
  have step: "Clear_loop (Some ?p) L = Clear_loop ?next ?L1"
    by (subst Clear_loop.simps) (simp add: body)
  have "\<exists>L'. Clear_loop ?next ?L1 = Some (Inr (), L') \<and>
           lsize L' = lsize ?L1 \<and> head L' = head ?L1 \<and> tail L' = tail ?L1 \<and> brk L' = brk ?L1 \<and>
           (\<forall>q. q \<notin> set ps \<longrightarrow> nodes L' q = nodes ?L1 q) \<and>
           (\<forall>d. d \<notin> set ds \<longrightarrow> cells L' d = cells ?L1 d)"
  proof (rule Suc.hyps(1) [of "Suc k" ?L1])
    show "m = length ps - Suc k" using Suc.hyps(2) by simp
    show "nodes ?L1 (ps ! i) = Some (link ps ds i)" if "Suc k \<le> i" "i < length ps" for i
    proof -
      from that k \<open>distinct ps\<close> have "ps ! i \<noteq> ps ! k"
        by (simp add: nth_eq_iff_index_eq)
      with that Suc.prems(4) [of i] show ?thesis by simp
    qed
    show "cells ?L1 (ds ! i) \<noteq> None" if "Suc k \<le> i" "i < length ps" for i
    proof -
      from that k \<open>distinct ds\<close> \<open>length ds = length ps\<close> have "ds ! i \<noteq> ds ! k"
        by (simp add: nth_eq_iff_index_eq)
      with that Suc.prems(5) [of i] show ?thesis by simp
    qed
    show "Suc k \<le> length ps" using k by simp
  qed (use Suc.prems in simp_all)
  then obtain L' where r: "Clear_loop ?next ?L1 = Some (Inr (), L')"
    and f: "lsize L' = lsize L" "head L' = head L" "tail L' = tail L" "brk L' = brk L"
    and fn: "\<forall>q. q \<notin> set ps \<longrightarrow> nodes L' q = nodes ?L1 q"
    and fc: "\<forall>d. d \<notin> set ds \<longrightarrow> cells L' d = cells ?L1 d"
    by auto
  from k Suc.prems(1) have "?p \<in> set ps" "?d \<in> set ds" by simp_all
  with fn fc have "\<forall>q. q \<notin> set ps \<longrightarrow> nodes L' q = nodes L q"
    "\<forall>d. d \<notin> set ds \<longrightarrow> cells L' d = cells L d"
    by auto
  with step k r f show ?case by simp
qed

lemma Clear_is_list:
  assumes "is_list L ps ds"
  shows "\<exists>L'. Clear L = Some (Inr (), L') \<and> is_list L' [] [] \<and> brk L' = brk L \<and>
           (\<forall>q. q \<notin> set ps \<longrightarrow> nodes L' q = nodes L q) \<and>
           (\<forall>d. d \<notin> set ds \<longrightarrow> cells L' d = cells L d)"
proof -
  from assms have "\<exists>L'. Clear_loop (if 0 = length ps then None else Some (ps ! 0)) L = Some (Inr (), L') \<and>
           lsize L' = lsize L \<and> head L' = head L \<and> tail L' = tail L \<and> brk L' = brk L \<and>
           (\<forall>q. q \<notin> set ps \<longrightarrow> nodes L' q = nodes L q) \<and>
           (\<forall>d. d \<notin> set ds \<longrightarrow> cells L' d = cells L d)"
    by (intro Clear_loop_is_list [of ds ps 0 L]) (auto simp: is_list_def)
  moreover from assms have "head L = (if 0 = length ps then None else Some (ps ! 0))"
    by (auto simp: is_list_def)
  ultimately obtain L' where "Clear_loop (head L) L = Some (Inr (), L')" "brk L' = brk L"
    "\<forall>q. q \<notin> set ps \<longrightarrow> nodes L' q = nodes L q"
    "\<forall>d. d \<notin> set ds \<longrightarrow> cells L' d = cells L d"
    by auto
  then show ?thesis
    by (simp add: Clear_def is_list_def)
qed

lemma List_empty_is_list: "is_list List_empty [] []"
  by (simp add: is_list_def List_empty_def)

text \<open>
  Writing an element changes no node: \<open>Set\<close>, \<open>Swap\<close>, \<open>Reverse\<close> and
  \<open>Shuffle\<close> keep the list on the same nodes and cells, whether they return or
  throw.
\<close>

lemma store_is_list:
  "is_list L ps ds \<Longrightarrow> is_list (snd (store r v L)) ps ds"
  by (auto simp: store_def is_list_def split: option.splits)

lemma store_cases:
  "store r v L = (Inl Undefined, L) \<or> (\<exists>old. cells L r = Some old \<and> store r v L = (Inr (), L\<lparr>cells := (cells L)(r \<mapsto> v)\<rparr>))"
  by (auto simp: store_def split: option.splits)

lemma List_Set_is_list:
  "is_list L ps ds \<Longrightarrow> is_list (snd (List_Set Index Value L)) ps ds"
  using store_is_list [of L ps ds]
  by (auto simp: List_Set_def seq_def rd_def split: sum.splits prod.splits)

lemma Swap_preserves_is_list:
  assumes "is_list L ps ds"
  shows "is_list (snd (Swap Lft Rgt L)) ps ds"
proof (cases "Lft < lsize L \<and> Rgt < lsize L")
  case True
  let ?a = "ds ! landing (lsize L) Lft" and ?b = "ds ! landing (lsize L) Rgt"
  from assms have n: "lsize L = length ps" by (simp add: is_list_def)
  from True n is_list_cell [OF assms, of "landing (length ps) Lft"]
    is_list_cell [OF assms, of "landing (length ps) Rgt"]
  have "cells L ?a \<noteq> None" "cells L ?b \<noteq> None"
    by (auto simp: landing_less)
  then have "dom ((cells L)(?a := cells L ?b, ?b := cells L ?a)) = dom (cells L)"
    by (auto simp: domIff)
  from is_list_cells_update [OF assms this] Swap_is_list [OF assms] True show ?thesis
    by simp
next
  case False
  with assms show ?thesis
    by (auto simp: Swap_def IsValidIndex_def throw_def)
qed

lemma Reverse_loop_is_list:
  "is_list L ps ds \<Longrightarrow> is_list (snd (Reverse_loop Index L)) ps ds"
proof (induction Index L rule: Reverse_loop.induct)
  case (1 Index L)
  show ?case
  proof (cases "Index < lsize L div 2")
    case False
    with "1.prems" show ?thesis
      by (subst Reverse_loop.simps) (simp add: ret_def)
  next
    case True
    obtain res L1 where sw: "Swap Index (lsize L - Index - 1) L = (res, L1)"
      by (cases "Swap Index (lsize L - Index - 1) L")
    from Swap_preserves_is_list [OF "1.prems", of Index "lsize L - Index - 1"] sw
    have l1: "is_list L1 ps ds" by simp
    show ?thesis
    proof (cases res)
      case (Inl e)
      with sw True l1 show ?thesis
        by (subst Reverse_loop.simps) (simp add: seq_def)
    next
      case (Inr u)
      with sw True "1.IH" [OF True _ l1, of u] show ?thesis
        by (subst Reverse_loop.simps) (simp add: seq_def)
    qed
  qed
qed

lemma Shuffle_loop_is_list:
  "is_list L ps ds \<Longrightarrow> is_list (snd (Shuffle_loop rand Index L)) ps ds"
proof (induction rand Index L rule: Shuffle_loop.induct)
  case (1 rand Index L)
  show ?case
  proof (cases "Index < lsize L")
    case False
    with "1.prems" show ?thesis
      by (subst Shuffle_loop.simps) (simp add: ret_def)
  next
    case True
    obtain res L1 where sw: "Swap Index (rand Index mod lsize L) L = (res, L1)"
      by (cases "Swap Index (rand Index mod lsize L) L")
    from Swap_preserves_is_list [OF "1.prems", of Index "rand Index mod lsize L"] sw
    have l1: "is_list L1 ps ds" by simp
    show ?thesis
    proof (cases res)
      case (Inl e)
      with sw True l1 show ?thesis
        by (subst Shuffle_loop.simps) (simp add: seq_def)
    next
      case (Inr u)
      with sw True "1.IH" [OF True _ l1, of u] show ?thesis
        by (subst Shuffle_loop.simps) (simp add: seq_def)
    qed
  qed
qed

lemma Node_inc_link:
  "is_list L ps ds \<Longrightarrow> i < length ps \<Longrightarrow>
     Node_inc L (link ps ds i) = Inr (if Suc i = length ps then NIL else link ps ds (Suc i))"
  using is_list_node_at [of L ps ds "Suc i"]
  by (auto simp: Node_inc_def link_def)

lemma List_begin_is_list:
  "is_list L ps ds \<Longrightarrow> List_begin L = Inr (if 0 = length ps then NIL else link ps ds 0)"
  using is_list_node_at [of L ps ds 0]
  by (auto simp: List_begin_def is_list_def)

lemma Node_deref_link: "Node_deref (link ps ds i) = Inr (ds ! i)"
  by (simp add: Node_deref_def link_def)

lemma link_not_NIL: "\<not> Node_eq (link ps ds i) NIL"
  by (simp add: Node_eq_def link_def NIL_def)

lemma Fill_loop_is_list:
  assumes "is_list L ps ds" and "i \<le> length ps"
  shows "\<exists>L'. Fill_loop v (if i = length ps then NIL else link ps ds i) L = Some (Inr (), L') \<and>
           is_list L' ps ds"
  using assms
proof (induction "length ps - i" arbitrary: i L)
  case 0
  then have "i = length ps" by simp
  with 0 show ?case
    by (subst Fill_loop.simps) (simp add: List_end_def Node_eq_def)
next
  case (Suc m)
  then have i: "i < length ps" by simp
  from is_list_cell [OF Suc.prems(1) i] obtain x where x: "cells L (ds ! i) = Some x" ..
  let ?L1 = "L\<lparr>cells := (cells L)(ds ! i \<mapsto> v)\<rparr>"
  have st: "store (ds ! i) v L = (Inr (), ?L1)"
    using x by (simp add: store_def)
  from store_is_list [OF Suc.prems(1), of "ds ! i" v] st have l1: "is_list ?L1 ps ds"
    by simp
  have step: "Fill_loop v (link ps ds i) L =
      Fill_loop v (if Suc i = length ps then NIL else link ps ds (Suc i)) ?L1"
    by (subst Fill_loop.simps)
      (simp add: List_end_def link_not_NIL Node_deref_link st Node_inc_link [OF l1 i])
  from Suc.hyps(1) [of "Suc i" ?L1] Suc.hyps(2) l1 i
  have "\<exists>L'. Fill_loop v (if Suc i = length ps then NIL else link ps ds (Suc i)) ?L1 = Some (Inr (), L') \<and>
           is_list L' ps ds"
    by simp
  with step i show ?case by simp
qed

lemma Fill_is_list:
  assumes "is_list L ps ds"
  shows "\<exists>L'. Fill v L = Some (Inr (), L') \<and> is_list L' ps ds"
  using Fill_loop_is_list [OF assms, of 0 v] List_begin_is_list [OF assms]
  by (simp add: Fill_def)

section \<open>What the sorting functions leave alone\<close>

text \<open>
  \<open>preserves P m\<close>: the action \<open>m\<close> leaves a state with \<open>P\<close> in a state with
  \<open>P\<close>, whether it returns or throws. The sorting functions change the collection
  through \<open>put\<close> only, so they preserve whatever every \<open>put\<close> preserves.
\<close>

definition preserves :: "('s \<Rightarrow> bool) \<Rightarrow> ('s, 'r) action \<Rightarrow> bool" where
  "preserves P m \<longleftrightarrow> (\<forall>s. P s \<longrightarrow> P (snd (m s)))"

lemma preservesD: "preserves P m \<Longrightarrow> P s \<Longrightarrow> P (snd (m s))"
  by (simp add: preserves_def)

lemma preserves_ret: "preserves P (ret x)"
  by (simp add: preserves_def ret_def)

lemma preserves_throw: "preserves P (throw e)"
  by (simp add: preserves_def throw_def)

lemma preserves_rd: "preserves P (rd f)"
  by (simp add: preserves_def rd_def)

lemma preserves_seq_result:
  assumes "preserves P m" and "\<And>x s t. P s \<Longrightarrow> m s = (Inr x, t) \<Longrightarrow> P (snd (f x t))"
  shows "preserves P (seq m f)"
  unfolding preserves_def
proof (intro allI impI)
  fix s assume s: "P s"
  obtain r t where m: "m s = (r, t)" by (cases "m s")
  from preservesD [OF assms(1) s] m have "P t" by simp
  show "P (snd (seq m f s))"
  proof (cases r)
    case (Inl e)
    with m \<open>P t\<close> show ?thesis by (simp add: seq_def)
  next
    case (Inr x)
    with m assms(2) [OF s, of x t] show ?thesis by (simp add: seq_def)
  qed
qed

lemma preserves_seq:
  assumes "preserves P m" and "\<And>x. preserves P (f x)"
  shows "preserves P (seq m f)"
proof (rule preserves_seq_result [OF assms(1)])
  fix x s t assume "P s" "m s = (Inr x, t)"
  with preservesD [OF assms(1), of s] have "P t" by simp
  with assms(2) [of x] show "P (snd (f x t))" by (rule preservesD)
qed

lemma preserves_if:
  "(c \<Longrightarrow> preserves P a) \<Longrightarrow> (\<not> c \<Longrightarrow> preserves P b) \<Longrightarrow> preserves P (if c then a else b)"
  by simp

definition keeps :: "('c \<Rightarrow> bool) \<Rightarrow> ('c, 'r, 'a) indexable \<Rightarrow> bool" where
  "keeps P C \<longleftrightarrow> (\<forall>r v. preserves P (put C r v))"

lemma preserves_put: "keeps P C \<Longrightarrow> preserves P (put C r v)"
  by (simp add: keeps_def)

lemma preserves_element: "preserves P (element C i)"
  by (simp add: element_def preserves_rd)

lemma preserves_assign: "keeps P C \<Longrightarrow> preserves P (assign C i v)"
  unfolding assign_def by (intro preserves_seq preserves_rd preserves_put)

lemma preserves_assign_from: "keeps P C \<Longrightarrow> preserves P (assign_from C i j)"
  unfolding assign_from_def by (intro preserves_seq preserves_rd preserves_put)

lemma preserves_exchange: "keeps P C \<Longrightarrow> preserves P (exchange C i j)"
  unfolding exchange_def
  by (intro preserves_seq preserves_element preserves_assign_from preserves_assign)

lemma preserves_compare_at: "preserves P (compare_at C Comparer i j)"
  unfolding compare_at_def by (intro preserves_seq preserves_rd preserves_ret)

lemma preserves_eqI: "f = g \<Longrightarrow> preserves P g \<Longrightarrow> preserves P f"
  by simp

lemma preserves_BubbleSort_inner:
  assumes "keeps P C"
  shows "preserves P (BubbleSort_inner C Size Comparer Lft Rgt HasSwapped)"
proof (induction "size_sub (size_sub Size Lft) 1 - Rgt" arbitrary: Rgt HasSwapped rule: less_induct)
  case less
  show ?case
  proof (cases "Rgt < size_sub (size_sub Size Lft) 1")
    case False
    then have "BubbleSort_inner C Size Comparer Lft Rgt HasSwapped = ret HasSwapped"
      by (intro ext) (simp add: BubbleSort_inner.simps)
    then show ?thesis by (simp add: preserves_ret)
  next
    case True
    then have "BubbleSort_inner C Size Comparer Lft Rgt HasSwapped =
        seq (compare_at C Comparer Rgt (Rgt + 1))
          (\<lambda>b. if b then
                 seq (exchange C Rgt (Rgt + 1))
                   (\<lambda>_. BubbleSort_inner C Size Comparer Lft (Rgt + 1) True)
               else BubbleSort_inner C Size Comparer Lft (Rgt + 1) HasSwapped)"
      by (intro ext) (simp add: BubbleSort_inner.simps [of C Size Comparer Lft Rgt])
    moreover from True have "size_sub (size_sub Size Lft) 1 - (Rgt + 1) < size_sub (size_sub Size Lft) 1 - Rgt"
      by simp
    note IH = less [OF this]
    have "preserves P (seq (compare_at C Comparer Rgt (Rgt + 1))
          (\<lambda>b. if b then
                 seq (exchange C Rgt (Rgt + 1))
                   (\<lambda>_. BubbleSort_inner C Size Comparer Lft (Rgt + 1) True)
               else BubbleSort_inner C Size Comparer Lft (Rgt + 1) HasSwapped))"
      by (intro preserves_seq preserves_compare_at preserves_if preserves_exchange assms IH)
    ultimately show ?thesis by simp
  qed
qed

lemma preserves_BubbleSort_outer:
  assumes "keeps P C"
  shows "preserves P (BubbleSort_outer C Size Comparer Lft)"
proof (induction "size_sub Size 1 - Lft" arbitrary: Lft rule: less_induct)
  case less
  show ?case
  proof (cases "Lft < size_sub Size 1")
    case False
    then have "BubbleSort_outer C Size Comparer Lft = ret ()"
      by (intro ext) (simp add: BubbleSort_outer.simps)
    then show ?thesis by (simp add: preserves_ret)
  next
    case True
    then have "BubbleSort_outer C Size Comparer Lft =
        seq (BubbleSort_inner C Size Comparer Lft 0 False)
          (\<lambda>HasSwapped. if \<not> HasSwapped then ret ()
                         else BubbleSort_outer C Size Comparer (Lft + 1))"
      by (intro ext) (simp add: BubbleSort_outer.simps [of C Size Comparer Lft])
    moreover from True have "size_sub Size 1 - (Lft + 1) < size_sub Size 1 - Lft"
      by simp
    note IH = less [OF this]
    have "preserves P (seq (BubbleSort_inner C Size Comparer Lft 0 False)
          (\<lambda>HasSwapped. if \<not> HasSwapped then ret ()
                         else BubbleSort_outer C Size Comparer (Lft + 1)))"
      by (intro preserves_seq preserves_BubbleSort_inner preserves_if preserves_ret assms IH)
    ultimately show ?thesis by simp
  qed
qed

lemma preserves_BubbleSort: "keeps P C \<Longrightarrow> preserves P (BubbleSort C Size Comparer)"
  using preserves_BubbleSort_outer [of P C Size Comparer 0]
  by (simp add: preserves_def BubbleSort_def)


lemma preserves_copy_out: "preserves P (copy_out C start n)"
proof (induction n arbitrary: start)
  case 0
  have "copy_out C start 0 = ret []" by (intro ext) simp
  then show ?case by (simp add: preserves_ret)
next
  case (Suc n)
  have "copy_out C start (Suc n) =
      seq (element C start) (\<lambda>v. seq (copy_out C (start + 1) n) (\<lambda>vs. ret (v # vs)))"
    by (intro ext) simp
  moreover have "preserves P (seq (element C start)
      (\<lambda>v. seq (copy_out C (start + 1) n) (\<lambda>vs. ret (v # vs))))"
    by (intro preserves_seq preserves_element preserves_ret Suc)
  ultimately show ?case by simp
qed

lemma preserves_Merge_right:
  assumes "keeps P C"
  shows "preserves P (Merge_right C RightArr End Middle)"
proof (induction "length RightArr - End" arbitrary: End Middle rule: less_induct)
  case less
  show ?case
  proof (cases "End < length RightArr")
    case False
    then have "Merge_right C RightArr End Middle = ret ()"
      by (intro ext) (simp add: Merge_right.simps)
    then show ?thesis by (simp add: preserves_ret)
  next
    case True
    then have "Merge_right C RightArr End Middle =
        seq (assign C Middle (RightArr ! End)) (\<lambda>_. Merge_right C RightArr (End + 1) (Middle + 1))"
      by (intro ext) (simp add: Merge_right.simps [of C RightArr End])
    moreover from True have "length RightArr - (End + 1) < length RightArr - End" by simp
    note IH = less [OF this]
    have "preserves P (seq (assign C Middle (RightArr ! End))
        (\<lambda>_. Merge_right C RightArr (End + 1) (Middle + 1)))"
      by (intro preserves_seq preserves_assign assms IH)
    ultimately show ?thesis by simp
  qed
qed

lemma preserves_Merge_left:
  assumes "keeps P C"
  shows "preserves P (Merge_left C LeftArr RightArr Begin End Middle)"
proof (induction "length LeftArr - Begin" arbitrary: Begin Middle rule: less_induct)
  case less
  show ?case
  proof (cases "Begin < length LeftArr")
    case False
    then have "Merge_left C LeftArr RightArr Begin End Middle = Merge_right C RightArr End Middle"
      by (intro ext) (simp add: Merge_left.simps)
    then show ?thesis by (simp add: preserves_Merge_right assms)
  next
    case True
    then have "Merge_left C LeftArr RightArr Begin End Middle =
        seq (assign C Middle (LeftArr ! Begin))
          (\<lambda>_. Merge_left C LeftArr RightArr (Begin + 1) End (Middle + 1))"
      by (intro ext) (simp add: Merge_left.simps [of C LeftArr RightArr Begin])
    moreover from True have "length LeftArr - (Begin + 1) < length LeftArr - Begin" by simp
    note IH = less [OF this]
    have "preserves P (seq (assign C Middle (LeftArr ! Begin))
          (\<lambda>_. Merge_left C LeftArr RightArr (Begin + 1) End (Middle + 1)))"
      by (intro preserves_seq preserves_assign assms IH)
    ultimately show ?thesis by simp
  qed
qed

lemma preserves_Merge_both:
  assumes "keeps P C"
  shows "preserves P (Merge_both C Comparer LeftArr RightArr Begin End Middle)"
proof (induction "(length LeftArr - Begin) + (length RightArr - End)"
    arbitrary: Begin End Middle rule: less_induct)
  case less
  show ?case
  proof (cases "Begin < length LeftArr \<and> End < length RightArr")
    case False
    then have "Merge_both C Comparer LeftArr RightArr Begin End Middle =
        Merge_left C LeftArr RightArr Begin End Middle"
      by (intro ext) (auto simp: Merge_both.simps [of C Comparer LeftArr RightArr Begin End])
    then show ?thesis by (simp add: preserves_Merge_left assms)
  next
    case True
    then have "Merge_both C Comparer LeftArr RightArr Begin End Middle =
        (if \<not> Comparer (LeftArr ! Begin) (RightArr ! End) then
           seq (assign C Middle (LeftArr ! Begin))
             (\<lambda>_. Merge_both C Comparer LeftArr RightArr (Begin + 1) End (Middle + 1))
         else
           seq (assign C Middle (RightArr ! End))
             (\<lambda>_. Merge_both C Comparer LeftArr RightArr Begin (End + 1) (Middle + 1)))"
      by (intro ext) (simp add: Merge_both.simps [of C Comparer LeftArr RightArr Begin End])
    moreover from True have
      "(length LeftArr - (Begin + 1)) + (length RightArr - End)
         < (length LeftArr - Begin) + (length RightArr - End)"
      "(length LeftArr - Begin) + (length RightArr - (End + 1))
         < (length LeftArr - Begin) + (length RightArr - End)"
      by linarith+
    note IH = less [OF this(1)] less [OF this(2)]
    have "preserves P (if \<not> Comparer (LeftArr ! Begin) (RightArr ! End) then
           seq (assign C Middle (LeftArr ! Begin))
             (\<lambda>_. Merge_both C Comparer LeftArr RightArr (Begin + 1) End (Middle + 1))
         else
           seq (assign C Middle (RightArr ! End))
             (\<lambda>_. Merge_both C Comparer LeftArr RightArr Begin (End + 1) (Middle + 1)))"
      by (intro preserves_if preserves_seq preserves_assign assms IH)
    ultimately show ?thesis by simp
  qed
qed

lemma preserves_Merge: "keeps P C \<Longrightarrow> preserves P (Merge C Begin Middle End Comparer)"
  unfolding Merge_def by (intro preserves_seq preserves_copy_out preserves_Merge_both)

lemma preserves_RecursiveMergeSort:
  assumes "keeps P C"
  shows "preserves P (RecursiveMergeSort C Begin End Comparer)"
proof (induction "End - Begin" arbitrary: Begin End rule: less_induct)
  case less
  show ?case
  proof (cases "Begin \<ge> End")
    case True
    then have "RecursiveMergeSort C Begin End Comparer = ret ()"
      by (intro ext) (simp add: RecursiveMergeSort.simps)
    then show ?thesis by (simp add: preserves_ret)
  next
    case False
    let ?Middle = "(Begin + End) div 2"
    from False have "RecursiveMergeSort C Begin End Comparer =
        seq (RecursiveMergeSort C Begin ?Middle Comparer)
          (\<lambda>_. seq (RecursiveMergeSort C (?Middle + 1) End Comparer)
          (\<lambda>_. Merge C Begin ?Middle End Comparer))"
      by (intro ext) (simp add: RecursiveMergeSort.simps [of C Begin End] Let_def)
    moreover from False have "?Middle - Begin < End - Begin" "End - (?Middle + 1) < End - Begin"
      by auto
    note IH = less [OF this(1)] less [OF this(2)]
    have "preserves P (seq (RecursiveMergeSort C Begin ?Middle Comparer)
          (\<lambda>_. seq (RecursiveMergeSort C (?Middle + 1) End Comparer)
          (\<lambda>_. Merge C Begin ?Middle End Comparer)))"
      by (intro preserves_seq preserves_Merge assms IH)
    ultimately show ?thesis by simp
  qed
qed

lemma preserves_MergeSort: "keeps P C \<Longrightarrow> preserves P (MergeSort C Size Comparer)"
  using preserves_RecursiveMergeSort [of P C 0 "size_sub Size 1" Comparer]
  by (simp add: preserves_def MergeSort_def)

lemma preserves_Partition_loop:
  assumes "keeps P C"
  shows "preserves P (Partition_loop C High Pivot Comparer Index PivotIndex)"
proof (induction "High - Index" arbitrary: Index PivotIndex rule: less_induct)
  case less
  show ?case
  proof (cases "Index < High")
    case False
    then have "Partition_loop C High Pivot Comparer Index PivotIndex = ret PivotIndex"
      by (intro ext) (simp add: Partition_loop.simps)
    then show ?thesis by (simp add: preserves_ret)
  next
    case True
    then have "Partition_loop C High Pivot Comparer Index PivotIndex =
        seq (rd (\<lambda>c. at C c Index))
          (\<lambda>ri. seq (rd (\<lambda>c. fetch C c ri))
          (\<lambda>a. seq (rd (\<lambda>c. fetch C c Pivot))
          (\<lambda>p. if \<not> Comparer a p then
                  seq (exchange C PivotIndex Index)
                    (\<lambda>_. Partition_loop C High Pivot Comparer (Index + 1) (PivotIndex + 1))
                else Partition_loop C High Pivot Comparer (Index + 1) PivotIndex)))"
      by (intro ext) (simp add: Partition_loop.simps [of C High Pivot Comparer Index])
    moreover from True have "High - (Index + 1) < High - Index" by simp
    note IH = less [OF this]
    have "preserves P (seq (rd (\<lambda>c. at C c Index))
          (\<lambda>ri. seq (rd (\<lambda>c. fetch C c ri))
          (\<lambda>a. seq (rd (\<lambda>c. fetch C c Pivot))
          (\<lambda>p. if \<not> Comparer a p then
                  seq (exchange C PivotIndex Index)
                    (\<lambda>_. Partition_loop C High Pivot Comparer (Index + 1) (PivotIndex + 1))
                else Partition_loop C High Pivot Comparer (Index + 1) PivotIndex))))"
      by (intro preserves_seq preserves_rd preserves_if preserves_exchange assms IH)
    ultimately show ?thesis by simp
  qed
qed

lemma preserves_Partition: "keeps P C \<Longrightarrow> preserves P (Partition C Low High Pivot Comparer)"
  unfolding Partition_def
  by (intro preserves_seq preserves_Partition_loop preserves_exchange preserves_ret)

lemma preserves_RecursiveQuickSort:
  assumes "keeps P C"
  shows "preserves P (RecursiveQuickSort C Low High Comparer)"
proof (induction "High - Low" arbitrary: Low High rule: less_induct)
  case less
  show ?case
  proof (cases "Low \<ge> High")
    case True
    then have "RecursiveQuickSort C Low High Comparer = ret ()"
      by (intro ext) (simp add: RecursiveQuickSort.simps)
    then show ?thesis by (simp add: preserves_ret)
  next
    case False
    let ?rest = "\<lambda>PivotIndex. seq (if PivotIndex > 0
                              then RecursiveQuickSort C Low (PivotIndex - 1) Comparer
                              else ret ())
          (\<lambda>_. RecursiveQuickSort C (PivotIndex + 1) High Comparer)"
    from False have eq: "RecursiveQuickSort C Low High Comparer =
        seq (rd (\<lambda>c. at C c High))
          (\<lambda>Pivot. seq (Partition C Low High Pivot GreaterThan) ?rest)"
      by (intro ext) (simp add: RecursiveQuickSort.simps [of C Low High])
    have rest: "P (snd (?rest k t))"
      if "P s" "Partition C Low High Pivot GreaterThan s = (Inr k, t)" for Pivot s k t
    proof -
      from that(2) False Partition_range [of C Low High Pivot GreaterThan s k t]
      have k: "Low \<le> k" "k \<le> High" by simp_all
      from preservesD [OF preserves_Partition [OF assms] that(1), of Low High Pivot GreaterThan] that(2)
      have t: "P t" by simp
      from k False have "(k - 1) - Low < High - Low" "High - (k + 1) < High - Low"
        by auto
      note IH = less [OF this(1)] less [OF this(2)]
      have "preserves P (?rest k)"
        by (intro preserves_seq preserves_if preserves_ret IH)
      from preservesD [OF this t] show ?thesis .
    qed
    have "preserves P (seq (rd (\<lambda>c. at C c High))
          (\<lambda>Pivot. seq (Partition C Low High Pivot GreaterThan) ?rest))"
      by (intro preserves_seq preserves_rd preserves_seq_result preserves_Partition assms rest)
    with eq show ?thesis by simp
  qed
qed

lemma preserves_QuickSort: "keeps P C \<Longrightarrow> preserves P (QuickSort C Size Comparer)"
  using preserves_RecursiveQuickSort [of P C 0 "size_sub Size 1" Comparer]
  by (simp add: preserves_def QuickSort_def)

lemma keeps_is_list: "keeps (\<lambda>L. is_list L ps ds) List_indexable"
  by (simp add: keeps_def preserves_def List_indexable_def store_is_list)

lemma List_sorts_is_list:
  assumes "is_list L ps ds"
  shows "is_list (snd (List_BubbleSort L)) ps ds"
    and "is_list (snd (List_MergeSort L)) ps ds"
    and "is_list (snd (List_QuickSort L)) ps ds"
  using assms
    preservesD [OF preserves_BubbleSort [OF keeps_is_list], of L ps ds "lsize L" GreaterThan]
    preservesD [OF preserves_MergeSort [OF keeps_is_list], of L ps ds "lsize L" GreaterThan]
    preservesD [OF preserves_QuickSort [OF keeps_is_list], of L ps ds "lsize L" GreaterThan]
  by (simp_all add: List_BubbleSort_def List_MergeSort_def List_QuickSort_def)

section \<open>The structural invariant\<close>

text \<open>
  \<open>follow f L p k\<close> goes \<open>k\<close> times from \<open>p\<close> along the pointer \<open>f\<close>
  (\<open>nxt\<close> or \<open>previous\<close>). A node is linked both ways when its successor, if it
  has one, points back to it, and its predecessor, if it has one, points forward to it.
\<close>

fun follow :: "(Node \<Rightarrow> addr option) \<Rightarrow> 'a LinkedList \<Rightarrow> addr option \<Rightarrow> nat \<Rightarrow> addr option" where
  "follow f L p 0 = p"
| "follow f L p (Suc k) = (case arrow f p L of Inl e \<Rightarrow> None | Inr q \<Rightarrow> follow f L q k)"

definition linked_both_ways :: "'a LinkedList \<Rightarrow> addr option \<Rightarrow> bool" where
  "linked_both_ways L p =
     (case node_at L p of Inl e \<Rightarrow> False
      | Inr n \<Rightarrow>
          (nxt n = None \<or> arrow previous (nxt n) L = Inr p) \<and>
          (previous n = None \<or> arrow nxt (previous n) L = Inr p))"

text \<open>
  The invariant of the specification: the size is 0 exactly when head and tail are
  null; in a non-empty list, \<open>size - 1\<close> steps along \<open>nxt\<close> lead from the head to
  the tail and \<open>size - 1\<close> steps along \<open>previous\<close> lead back; every node met on
  the way from the head is linked both ways.
\<close>

definition structural_invariant :: "'a LinkedList \<Rightarrow> bool" where
  "structural_invariant L \<longleftrightarrow>
     ((lsize L = 0) = (head L = None \<and> tail L = None)) \<and>
     (lsize L \<noteq> 0 \<longrightarrow>
        head L \<noteq> None \<and> tail L \<noteq> None \<and>
        follow nxt L (head L) (lsize L - 1) = tail L \<and>
        follow previous L (tail L) (lsize L - 1) = head L) \<and>
     (\<forall>k<lsize L. linked_both_ways L (follow nxt L (head L) k))"

text \<open>
  The calls of the public member functions that can change a list. (The getters and
  searches are \<^verbatim>\<open>const\<close> and return values only; \<open>Emplace\<close>, \<open>EmplaceFront\<close> and
  \<open>EmplaceBack\<close> run the code of \<open>Insert\<close> on the value they construct; the
  constructors from a size, an array or an initializer list are runs of
  \<open>PushBack\<close>.) \<open>run c L\<close> is the state after the call, returned from or thrown
  out of, and \<open>None\<close> if the call does not come back. A list is reachable when it
  is the empty list of the default constructor after any number of such calls.
\<close>

datatype 'a call =
    Call_Insert nat 'a
  | Call_PushFront 'a
  | Call_PushBack 'a
  | Call_Erase nat
  | Call_PopFront
  | Call_PopBack
  | Call_Clear
  | Call_Set nat 'a
  | Call_Swap nat nat
  | Call_Fill 'a
  | Call_Reverse
  | Call_Shuffle "nat \<Rightarrow> nat"
  | Call_BubbleSort
  | Call_MergeSort
  | Call_QuickSort

fun run :: "('a::ord) call \<Rightarrow> 'a LinkedList \<Rightarrow> 'a LinkedList option" where
  "run (Call_Insert Index Value) L = Some (snd (Insert Index Value L))"
| "run (Call_PushFront Value) L = Some (snd (PushFront Value L))"
| "run (Call_PushBack Value) L = Some (snd (PushBack Value L))"
| "run (Call_Erase Index) L = Some (snd (Erase Index L))"
| "run Call_PopFront L = Some (snd (PopFront L))"
| "run Call_PopBack L = Some (snd (PopBack L))"
| "run Call_Clear L = map_option snd (Clear L)"
| "run (Call_Set Index Value) L = Some (snd (List_Set Index Value L))"
| "run (Call_Swap Lft Rgt) L = Some (snd (Swap Lft Rgt L))"
| "run (Call_Fill Value) L = map_option snd (Fill Value L)"
| "run Call_Reverse L = Some (snd (Reverse L))"
| "run (Call_Shuffle rand) L = Some (snd (Shuffle rand L))"
| "run Call_BubbleSort L = Some (snd (List_BubbleSort L))"
| "run Call_MergeSort L = Some (snd (List_MergeSort L))"
| "run Call_QuickSort L = Some (snd (List_QuickSort L))"

inductive reachable :: "('a::ord) LinkedList \<Rightarrow> bool" where
  constructed: "reachable List_empty"
| called: "reachable L \<Longrightarrow> run c L = Some L' \<Longrightarrow> reachable L'"

lemma follow_nxt_is_list:
  "is_list L ps ds \<Longrightarrow> i + k < length ps \<Longrightarrow> follow nxt L (Some (ps ! i)) k = Some (ps ! (i + k))"
proof (induction k arbitrary: i)
  case 0
  then show ?case by simp
next
  case (Suc k)
  from Suc.prems have "arrow nxt (Some (ps ! i)) L = Inr (Some (ps ! Suc i))"
    by (simp add: arrow_def is_list_node_at link_def)
  with Suc.IH [of "Suc i"] Suc.prems show ?case by simp
qed

lemma follow_previous_is_list:
  "is_list L ps ds \<Longrightarrow> i < length ps \<Longrightarrow> k \<le> i \<Longrightarrow>
     follow previous L (Some (ps ! i)) k = Some (ps ! (i - k))"
proof (induction k arbitrary: i)
  case 0
  then show ?case by simp
next
  case (Suc k)
  then obtain j where j: "i = Suc j" by (cases i) auto
  from Suc.prems j have "arrow previous (Some (ps ! i)) L = Inr (Some (ps ! j))"
    by (simp add: arrow_def is_list_node_at link_def)
  with Suc.IH [of j] Suc.prems j show ?case by simp
qed

lemma is_list_linked_both_ways:
  assumes "is_list L ps ds" and "i < length ps"
  shows "linked_both_ways L (Some (ps ! i))"
proof -
  have "arrow previous (Some (ps ! Suc i)) L = Inr (Some (ps ! i))" if "Suc i < length ps"
    using that assms by (simp add: arrow_def is_list_node_at link_def)
  moreover have "arrow nxt (Some (ps ! (i - 1))) L = Inr (Some (ps ! i))" if "i \<noteq> 0"
    using that assms by (simp add: arrow_def is_list_node_at link_def)
  moreover have "Suc i = length ps \<or> Suc i < length ps"
    using assms(2) by auto
  moreover have "node_at L (Some (ps ! i)) = Inr (link ps ds i)"
    using assms by (rule is_list_node_at)
  ultimately show ?thesis
    by (auto simp: linked_both_ways_def link_def)
qed

lemma is_list_structural_invariant:
  assumes "is_list L ps ds"
  shows "structural_invariant L"
proof (cases "ps = []")
  case True
  with assms show ?thesis
    by (simp add: structural_invariant_def is_list_def)
next
  case False
  let ?n = "length ps"
  from assms False have n: "lsize L = ?n" "0 < ?n" and hd: "head L = Some (ps ! 0)"
    and tl: "tail L = Some (ps ! (?n - 1))"
    by (auto simp: is_list_def)
  from follow_nxt_is_list [OF assms, of 0 "?n - 1"] n
  have a: "follow nxt L (head L) (lsize L - 1) = tail L"
    by (simp add: hd tl)
  from follow_previous_is_list [OF assms, of "?n - 1" "?n - 1"] n
  have b: "follow previous L (tail L) (lsize L - 1) = head L"
    by (simp add: hd tl)
  have c: "linked_both_ways L (follow nxt L (head L) k)" if "k < lsize L" for k
    using that n follow_nxt_is_list [OF assms, of 0 k] is_list_linked_both_ways [OF assms, of k]
    by (simp add: hd)
  from a b c n hd tl show ?thesis
    by (simp add: structural_invariant_def)
qed

lemma Insert_keeps_list:
  assumes "is_list L ps ds"
  shows "\<exists>ps' ds'. is_list (snd (Insert Index Value L)) ps' ds'"
proof (cases "Index \<le> lsize L")
  case True
  from Insert_is_list [OF assms True, of Value] obtain L' where
    "Insert Index Value L = (Inr (brk L), L')"
    "is_list L' (insert_at (insert_pos (lsize L) Index) (brk L + 1) ps)
                (insert_at (insert_pos (lsize L) Index) (brk L) ds)"
    by blast
  then have "is_list (snd (Insert Index Value L))
      (insert_at (insert_pos (lsize L) Index) (brk L + 1) ps)
      (insert_at (insert_pos (lsize L) Index) (brk L) ds)"
    by simp
  then show ?thesis by blast
next
  case False
  with assms show ?thesis
    by (auto simp: Insert_def throw_def)
qed

lemma Erase_keeps_list:
  assumes "is_list L ps ds"
  shows "\<exists>ps' ds'. is_list (snd (Erase Index L)) ps' ds'"
proof (cases "Index < lsize L")
  case True
  from Erase_is_list [OF assms True] obtain L' where
    "Erase Index L = (Inr (), L')"
    "is_list L' (remove_at (landing (lsize L) Index) ps) (remove_at (landing (lsize L) Index) ds)"
    by blast
  then have "is_list (snd (Erase Index L))
      (remove_at (landing (lsize L) Index) ps) (remove_at (landing (lsize L) Index) ds)"
    by simp
  then show ?thesis by blast
next
  case False
  with assms show ?thesis
    by (auto simp: Erase_def IsValidIndex_def throw_def)
qed

lemma run_keeps_list:
  assumes "is_list L ps ds"
  shows "\<exists>L' ps' ds'. run c L = Some L' \<and> is_list L' ps' ds'"
proof (cases c)
  case (Call_Insert Index Value)
  with Insert_keeps_list [OF assms] show ?thesis by simp
next
  case (Call_PushFront Value)
  with Insert_keeps_list [OF assms] show ?thesis by (simp add: PushFront_def)
next
  case (Call_PushBack Value)
  with Insert_keeps_list [OF assms] show ?thesis by (simp add: PushBack_def)
next
  case (Call_Erase Index)
  with Erase_keeps_list [OF assms] show ?thesis by simp
next
  case Call_PopFront
  with Erase_keeps_list [OF assms] show ?thesis by (simp add: PopFront_def)
next
  case Call_PopBack
  with Erase_keeps_list [OF assms] show ?thesis by (simp add: PopBack_def)
next
  case Call_Clear
  with Clear_is_list [OF assms] show ?thesis by auto
next
  case (Call_Set Index Value)
  with List_Set_is_list [OF assms] show ?thesis by auto
next
  case (Call_Swap Lft Rgt)
  with Swap_preserves_is_list [OF assms] show ?thesis by auto
next
  case (Call_Fill Value)
  with Fill_is_list [OF assms, of Value] show ?thesis by auto
next
  case Call_Reverse
  with Reverse_loop_is_list [OF assms, of 0] show ?thesis by (auto simp: Reverse_def)
next
  case (Call_Shuffle rand)
  with Shuffle_loop_is_list [OF assms, of rand 0] show ?thesis by (auto simp: Shuffle_def)
next
  case Call_BubbleSort
  with List_sorts_is_list(1) [OF assms] show ?thesis by auto
next
  case Call_MergeSort
  with List_sorts_is_list(2) [OF assms] show ?thesis by auto
next
  case Call_QuickSort
  with List_sorts_is_list(3) [OF assms] show ?thesis by auto
qed

lemma reachable_is_list: "reachable L \<Longrightarrow> \<exists>ps ds. is_list L ps ds"
proof (induction rule: reachable.induct)
  case constructed
  from List_empty_is_list show ?case by blast
next
  case (called L c L')
  then obtain ps ds where "is_list L ps ds" by blast
  from run_keeps_list [OF this, of c] called.hyps(2) show ?case by auto
qed

lemma reachable_PushBack_all: "reachable L \<Longrightarrow> reachable (snd (PushBack_all xs L))"
proof (induction xs arbitrary: L)
  case Nil
  then show ?case by simp
next
  case (Cons x xs)
  have r: "reachable (snd (PushBack x L))"
    by (rule reachable.called [OF Cons.prems, of "Call_PushBack x"]) simp
  show ?case
  proof (cases "PushBack x L")
    case (Pair res L1)
    with r Cons.IH [of L1] show ?thesis
      by (cases res) simp_all
  qed
qed

lemma reachable_List_of: "reachable (List_of xs)"
  unfolding List_of_def by (rule reachable_PushBack_all [OF reachable.constructed])

section \<open>What a call leaves alone in the free store\<close>

text \<open>
  \<open>cells_only L L'\<close>: the state \<open>L'\<close> differs from \<open>L\<close> at most in the values of
  elements that are allocated in both. \<open>Set\<close>, \<open>Swap\<close>, \<open>Fill\<close>, \<open>Reverse\<close>,
  \<open>Shuffle\<close> and the sorting functions write through \<open>store\<close> only, so this is
  all they can change.
\<close>

definition cells_only :: "'a LinkedList \<Rightarrow> 'a LinkedList \<Rightarrow> bool" where
  "cells_only L L' \<longleftrightarrow>
     lsize L' = lsize L \<and> head L' = head L \<and> tail L' = tail L \<and> nodes L' = nodes L \<and>
     brk L' = brk L \<and> dom (cells L') = dom (cells L)"

lemma cells_only_refl: "cells_only L L"
  by (simp add: cells_only_def)

lemma cells_only_trans: "cells_only L L1 \<Longrightarrow> cells_only L1 L2 \<Longrightarrow> cells_only L L2"
  by (simp add: cells_only_def)

lemma cells_only_store: "preserves (cells_only L0) (store r v)"
  by (auto simp: preserves_def cells_only_def store_def split: option.splits)

lemma cells_only_is_list: "cells_only L L' \<Longrightarrow> is_list L ps ds \<Longrightarrow> is_list L' ps ds"
  by (auto simp: cells_only_def is_list_def domIff set_eq_iff)

lemma preserves_List_Set:
  assumes "\<And>r v. preserves P (store r v)"
  shows "preserves P (List_Set Index Value)"
proof -
  have "List_Set Index Value = seq (rd (\<lambda>s. subscript s Index)) (\<lambda>r. store r Value)"
    by (intro ext) (simp add: List_Set_def)
  then show ?thesis
    by (simp add: preserves_seq preserves_rd assms)
qed

lemma preserves_Swap:
  assumes st: "\<And>r v. preserves P (store r v)"
  shows "preserves P (Swap Lft Rgt)"
  unfolding preserves_def
proof (intro allI impI)
  fix s :: "'a LinkedList"
  assume s: "P s"
  let ?body = "seq (rd (\<lambda>s. Traverse s Lft))
          (\<lambda>LeftNode. seq (rd (\<lambda>s. Traverse s Rgt))
          (\<lambda>RightNode. seq (rd (\<lambda>s. case element_ref s LeftNode of Inl e \<Rightarrow> Inl e
                                       | Inr r \<Rightarrow> load s r))
          (\<lambda>Swapped. seq (rd (\<lambda>s. case element_ref s RightNode of Inl e \<Rightarrow> Inl e
                                     | Inr r \<Rightarrow> load s r))
          (\<lambda>v. seq (rd (\<lambda>s. element_ref s LeftNode))
          (\<lambda>l. seq (store l v)
          (\<lambda>_. seq (rd (\<lambda>s. element_ref s RightNode))
          (\<lambda>r. store r Swapped)))))))"
  have b: "preserves P ?body"
    by (intro preserves_seq preserves_rd st)
  show "P (snd (Swap Lft Rgt s))"
  proof (cases "IsValidIndex s Lft \<and> IsValidIndex s Rgt")
    case True
    then have "Swap Lft Rgt s = ?body s" by (simp add: Swap_def)
    with preservesD [OF b s] show ?thesis by simp
  next
    case False
    with s show ?thesis by (auto simp: Swap_def throw_def)
  qed
qed

lemma preserves_Reverse_loop:
  assumes st: "\<And>r v. preserves P (store r v)"
  shows "P L \<Longrightarrow> P (snd (Reverse_loop Index L))"
proof (induction Index L rule: Reverse_loop.induct)
  case (1 Index L)
  show ?case
  proof (cases "Index < lsize L div 2")
    case False
    with "1.prems" show ?thesis
      by (subst Reverse_loop.simps) (simp add: ret_def)
  next
    case True
    obtain res L1 where sw: "Swap Index (lsize L - Index - 1) L = (res, L1)"
      by (cases "Swap Index (lsize L - Index - 1) L")
    from preservesD [OF preserves_Swap [OF st] "1.prems", of Index "lsize L - Index - 1"] sw
    have l1: "P L1" by simp
    show ?thesis
    proof (cases res)
      case (Inl e)
      with sw True l1 show ?thesis
        by (subst Reverse_loop.simps) (simp add: seq_def)
    next
      case (Inr u)
      with sw True "1.IH" [OF True _ l1, of u] show ?thesis
        by (subst Reverse_loop.simps) (simp add: seq_def)
    qed
  qed
qed

lemma preserves_Shuffle_loop:
  assumes st: "\<And>r v. preserves P (store r v)"
  shows "P L \<Longrightarrow> P (snd (Shuffle_loop rand Index L))"
proof (induction rand Index L rule: Shuffle_loop.induct)
  case (1 rand Index L)
  show ?case
  proof (cases "Index < lsize L")
    case False
    with "1.prems" show ?thesis
      by (subst Shuffle_loop.simps) (simp add: ret_def)
  next
    case True
    obtain res L1 where sw: "Swap Index (rand Index mod lsize L) L = (res, L1)"
      by (cases "Swap Index (rand Index mod lsize L) L")
    from preservesD [OF preserves_Swap [OF st] "1.prems", of Index "rand Index mod lsize L"] sw
    have l1: "P L1" by simp
    show ?thesis
    proof (cases res)
      case (Inl e)
      with sw True l1 show ?thesis
        by (subst Shuffle_loop.simps) (simp add: seq_def)
    next
      case (Inr u)
      with sw True "1.IH" [OF True _ l1, of u] show ?thesis
        by (subst Shuffle_loop.simps) (simp add: seq_def)
    qed
  qed
qed

lemma Fill_loop_cells_only:
  assumes "is_list L ps ds" and "i \<le> length ps"
  shows "\<exists>L'. Fill_loop v (if i = length ps then NIL else link ps ds i) L = Some (Inr (), L') \<and>
           cells_only L L'"
  using assms
proof (induction "length ps - i" arbitrary: i L)
  case 0
  then have "i = length ps" by simp
  with 0 show ?case
    by (subst Fill_loop.simps) (simp add: List_end_def Node_eq_def cells_only_refl)
next
  case (Suc m)
  then have i: "i < length ps" by simp
  from is_list_cell [OF Suc.prems(1) i] obtain x where x: "cells L (ds ! i) = Some x" ..
  let ?L1 = "L\<lparr>cells := (cells L)(ds ! i \<mapsto> v)\<rparr>"
  have st: "store (ds ! i) v L = (Inr (), ?L1)"
    using x by (simp add: store_def)
  from store_is_list [OF Suc.prems(1), of "ds ! i" v] st have l1: "is_list ?L1 ps ds"
    by simp
  from preservesD [OF cells_only_store cells_only_refl, of L "ds ! i" v] st
  have c1: "cells_only L ?L1" by simp
  have step: "Fill_loop v (link ps ds i) L =
      Fill_loop v (if Suc i = length ps then NIL else link ps ds (Suc i)) ?L1"
    by (subst Fill_loop.simps)
      (simp add: List_end_def link_not_NIL Node_deref_link st Node_inc_link [OF l1 i])
  from Suc.hyps(2) have m: "m = length ps - Suc i" by simp
  from i have si: "Suc i \<le> length ps" by simp
  from Suc.hyps(1) [OF m l1 si]
  obtain L' where
    "Fill_loop v (if Suc i = length ps then NIL else link ps ds (Suc i)) ?L1 = Some (Inr (), L')"
    "cells_only ?L1 L'"
    by auto
  with step i cells_only_trans [OF c1] show ?case by simp
qed

lemma Fill_cells_only:
  assumes "is_list L ps ds"
  shows "\<exists>L'. Fill v L = Some (Inr (), L') \<and> cells_only L L'"
  using Fill_loop_cells_only [OF assms, of 0 v] List_begin_is_list [OF assms]
  by (simp add: Fill_def)

lemma keeps_cells_only: "keeps (cells_only L0) List_indexable"
  by (simp add: keeps_def List_indexable_def cells_only_store)

lemma List_sorts_cells_only:
  shows "cells_only L (snd (List_BubbleSort L))"
    and "cells_only L (snd (List_MergeSort L))"
    and "cells_only L (snd (List_QuickSort L))"
  using
    preservesD [OF preserves_BubbleSort [OF keeps_cells_only] cells_only_refl,
      of L "lsize L" GreaterThan]
    preservesD [OF preserves_MergeSort [OF keeps_cells_only] cells_only_refl,
      of L "lsize L" GreaterThan]
    preservesD [OF preserves_QuickSort [OF keeps_cells_only] cells_only_refl,
      of L "lsize L" GreaterThan]
  by (simp_all add: List_BubbleSort_def List_MergeSort_def List_QuickSort_def)

text \<open>
  \<open>frame L ps ds L' ps' ds'\<close>: a call took the list with nodes \<open>ps\<close> and cells
  \<open>ds\<close> in the state \<open>L\<close> to the list with nodes \<open>ps'\<close> and cells \<open>ds'\<close> in
  \<open>L'\<close>, and on the way it changed no node and freed no element outside its own list:
  what was allocated before the call and is not part of \<open>ps\<close> and \<open>ds\<close> is as it
  was, and what the list gained was allocated by the call.
\<close>

definition frame ::
  "'a LinkedList \<Rightarrow> addr list \<Rightarrow> addr list \<Rightarrow> 'a LinkedList \<Rightarrow> addr list \<Rightarrow> addr list \<Rightarrow> bool"
  where
  "frame L ps ds L' ps' ds' \<longleftrightarrow>
     brk L \<le> brk L' \<and>
     (\<forall>q. q \<notin> set ps \<longrightarrow> q < brk L \<longrightarrow> nodes L' q = nodes L q) \<and>
     (\<forall>d. d \<notin> set ds \<longrightarrow> d < brk L \<longrightarrow> cells L d \<noteq> None \<longrightarrow> cells L' d \<noteq> None) \<and>
     (\<forall>q. q \<in> set ps' \<longrightarrow> q \<in> set ps \<or> brk L \<le> q) \<and>
     (\<forall>d. d \<in> set ds' \<longrightarrow> d \<in> set ds \<or> brk L \<le> d)"

lemma frame_refl: "frame L ps ds L ps ds"
  by (simp add: frame_def)

lemma frame_trans:
  assumes a: "frame L ps ds L1 ps1 ds1" and b: "frame L1 ps1 ds1 L2 ps2 ds2"
  shows "frame L ps ds L2 ps2 ds2"
  unfolding frame_def
proof (intro conjI allI impI)
  from a b show "brk L \<le> brk L2" by (simp add: frame_def)
next
  fix q assume q: "q \<notin> set ps" "q < brk L"
  with a have 1: "nodes L1 q = nodes L q" "q \<notin> set ps1" "q < brk L1"
    by (auto simp: frame_def)
  with b have "nodes L2 q = nodes L1 q" by (simp add: frame_def)
  with 1 show "nodes L2 q = nodes L q" by simp
next
  fix d assume d: "d \<notin> set ds" "d < brk L" "cells L d \<noteq> None"
  with a have 1: "cells L1 d \<noteq> None" "d \<notin> set ds1" "d < brk L1"
    by (auto simp: frame_def)
  with b show "cells L2 d \<noteq> None" by (simp add: frame_def)
next
  fix q assume "q \<in> set ps2"
  with b have "q \<in> set ps1 \<or> brk L1 \<le> q" by (simp add: frame_def)
  with a show "q \<in> set ps \<or> brk L \<le> q" by (auto simp: frame_def)
next
  fix d assume "d \<in> set ds2"
  with b have "d \<in> set ds1 \<or> brk L1 \<le> d" by (simp add: frame_def)
  with a show "d \<in> set ds \<or> brk L \<le> d" by (auto simp: frame_def)
qed

lemma cells_only_frame: "cells_only L L' \<Longrightarrow> frame L ps ds L' ps ds"
  by (auto simp: cells_only_def frame_def domIff set_eq_iff)

lemma set_remove_at: "set (remove_at t xs) \<subseteq> set xs"
  by (auto simp: remove_at_def dest: in_set_takeD in_set_dropD)

lemma Insert_frame:
  assumes L: "is_list L ps ds"
  shows "\<exists>ps' ds'. is_list (snd (Insert Index Value L)) ps' ds' \<and>
           frame L ps ds (snd (Insert Index Value L)) ps' ds'"
proof (cases "Index \<le> lsize L")
  case True
  let ?ps = "insert_at (insert_pos (lsize L) Index) (brk L + 1) ps"
  let ?ds = "insert_at (insert_pos (lsize L) Index) (brk L) ds"
  from Insert_is_list [OF L True, of Value] obtain L' where
    r: "Insert Index Value L = (Inr (brk L), L')" and l: "is_list L' ?ps ?ds"
    and c: "cells L' = (cells L)(brk L \<mapsto> Value)" and b: "brk L' = brk L + 2"
    and f: "\<forall>q. q \<notin> set ps \<longrightarrow> q \<noteq> brk L + 1 \<longrightarrow> nodes L' q = nodes L q"
    by blast
  have "frame L ps ds L' ?ps ?ds"
    unfolding frame_def using c b f by (auto simp: set_insert_at)
  with r l show ?thesis by auto
next
  case False
  with L frame_refl [of L ps ds] show ?thesis
    by (auto simp: Insert_def throw_def)
qed

lemma Erase_frame:
  assumes L: "is_list L ps ds"
  shows "\<exists>ps' ds'. is_list (snd (Erase Index L)) ps' ds' \<and>
           frame L ps ds (snd (Erase Index L)) ps' ds'"
proof (cases "Index < lsize L")
  case True
  let ?ps = "remove_at (landing (lsize L) Index) ps"
  let ?ds = "remove_at (landing (lsize L) Index) ds"
  from Erase_is_list [OF L True] obtain L' where
    r: "Erase Index L = (Inr (), L')" and l: "is_list L' ?ps ?ds"
    and b: "brk L' = brk L"
    and f: "\<forall>q. q \<notin> set ps \<longrightarrow> nodes L' q = nodes L q"
      "\<forall>d. d \<notin> set ds \<longrightarrow> cells L' d = cells L d"
    by blast
  have "frame L ps ds L' ?ps ?ds"
    unfolding frame_def using b f set_remove_at [of "landing (lsize L) Index" ps]
      set_remove_at [of "landing (lsize L) Index" ds]
    by auto
  with r l show ?thesis by auto
next
  case False
  with L frame_refl [of L ps ds] show ?thesis
    by (auto simp: Erase_def IsValidIndex_def throw_def)
qed

lemma Clear_frame:
  assumes L: "is_list L ps ds"
  shows "\<exists>L'. Clear L = Some (Inr (), L') \<and> is_list L' [] [] \<and> frame L ps ds L' [] []"
proof -
  from Clear_is_list [OF L] obtain L' where
    r: "Clear L = Some (Inr (), L')" and l: "is_list L' [] []" and b: "brk L' = brk L"
    and f: "\<forall>q. q \<notin> set ps \<longrightarrow> nodes L' q = nodes L q"
      "\<forall>d. d \<notin> set ds \<longrightarrow> cells L' d = cells L d"
    by blast
  have "frame L ps ds L' [] []"
    unfolding frame_def using b f by auto
  with r l show ?thesis by blast
qed

lemma cells_only_run:
  assumes "is_list L ps ds" and "cells_only L L'"
  shows "is_list L' ps ds \<and> frame L ps ds L' ps ds"
  using assms cells_only_is_list cells_only_frame by blast

lemma run_frame:
  assumes L: "is_list L ps ds"
  shows "\<exists>L' ps' ds'. run c L = Some L' \<and> is_list L' ps' ds' \<and> frame L ps ds L' ps' ds'"
proof (cases c)
  case (Call_Insert Index Value)
  with Insert_frame [OF L] show ?thesis by simp
next
  case (Call_PushFront Value)
  with Insert_frame [OF L] show ?thesis by (simp add: PushFront_def)
next
  case (Call_PushBack Value)
  with Insert_frame [OF L] show ?thesis by (simp add: PushBack_def)
next
  case (Call_Erase Index)
  with Erase_frame [OF L] show ?thesis by simp
next
  case Call_PopFront
  with Erase_frame [OF L] show ?thesis by (simp add: PopFront_def)
next
  case Call_PopBack
  with Erase_frame [OF L] show ?thesis by (simp add: PopBack_def)
next
  case Call_Clear
  with Clear_frame [OF L] show ?thesis by auto
next
  case (Call_Set Index Value)
  from preservesD [OF preserves_List_Set [OF cells_only_store] cells_only_refl, of L Index Value]
  have "cells_only L (snd (List_Set Index Value L))" .
  from cells_only_run [OF L this] Call_Set show ?thesis by auto
next
  case (Call_Swap Lft Rgt)
  from preservesD [OF preserves_Swap [OF cells_only_store] cells_only_refl, of L Lft Rgt]
  have "cells_only L (snd (Swap Lft Rgt L))" .
  from cells_only_run [OF L this] Call_Swap show ?thesis by auto
next
  case (Call_Fill Value)
  from Fill_cells_only [OF L, of Value] obtain L' where
    "Fill Value L = Some (Inr (), L')" "cells_only L L'" by blast
  with cells_only_run [OF L, of L'] Call_Fill show ?thesis by auto
next
  case Call_Reverse
  from preserves_Reverse_loop [of "cells_only L" L 0, OF cells_only_store cells_only_refl]
  have "cells_only L (snd (Reverse L))" by (simp add: Reverse_def)
  from cells_only_run [OF L this] Call_Reverse show ?thesis by auto
next
  case (Call_Shuffle rand)
  from preserves_Shuffle_loop [of "cells_only L" L rand 0, OF cells_only_store cells_only_refl]
  have "cells_only L (snd (Shuffle rand L))" by (simp add: Shuffle_def)
  from cells_only_run [OF L this] Call_Shuffle show ?thesis by auto
next
  case Call_BubbleSort
  from cells_only_run [OF L List_sorts_cells_only(1)] Call_BubbleSort show ?thesis by auto
next
  case Call_MergeSort
  from cells_only_run [OF L List_sorts_cells_only(2)] Call_MergeSort show ?thesis by auto
next
  case Call_QuickSort
  from cells_only_run [OF L List_sorts_cells_only(3)] Call_QuickSort show ?thesis by auto
qed

section \<open>List objects that share the free store\<close>

text \<open>
  The constructors, the destructor and the member functions as operations on list
  objects that live in one free store. \<open>construct\<close> is
  \<^verbatim>\<open>List() : size(0), head(nullptr), tail(nullptr), NIL(nullptr)\<close> on storage at
  the address \<open>this\<close>.
\<close>

definition empty_world :: "'a world" where
  "empty_world = \<lparr>objs = Map.empty, wnodes = Map.empty, wcells = Map.empty, wbrk = 0\<rparr>"

definition construct :: "addr \<Rightarrow> 'a world \<Rightarrow> 'a world" where
  "construct this w = w\<lparr>objs := (objs w)(this \<mapsto> (0, None, None))\<rparr>"

text \<open>
  \<^verbatim>\<open>List(size_t Size, const Type& Value)\<close>, \<^verbatim>\<open>List(const size_t Size, const Type* Array)\<close>
  and \<^verbatim>\<open>List(const std::initializer_list<Type>& List)\<close> start from the empty list
  and call \<^verbatim>\<open>PushBack\<close> in a loop; \<open>xs\<close> is the sequence of values pushed
  (\<open>Size\<close> times \<open>Value\<close> for the first).
\<close>

definition construct_from :: "addr \<Rightarrow> 'a list \<Rightarrow> ('a world, unit) action" where
  "construct_from this xs w =
     (let w0 = construct this w
      in (case view w0 this of None \<Rightarrow> (Inl Undefined, w0)
          | Some L \<Rightarrow> (case PushBack_all xs L of (res, L') \<Rightarrow> (res, commit this L' w0))))"

text \<open>
  \<^verbatim>\<open>List(const List<Type>& Copied) : size(0), head(nullptr), tail(nullptr), NIL(nullptr)
  { for (auto& Element : Copied) PushBack(Element); }\<close>
\<close>

definition copy_construct ::
  "addr \<Rightarrow> addr \<Rightarrow> 'a world \<Rightarrow> ((error + unit) \<times> 'a world) option" where
  "copy_construct this Copied w =
     (let w0 = construct this w
      in (case view w0 this of None \<Rightarrow> Some (Inl Undefined, w0)
          | Some L \<Rightarrow>
              (case view w0 Copied of None \<Rightarrow> Some (Inl Undefined, w0)
               | Some C \<Rightarrow>
                   (case List_begin C of Inl e \<Rightarrow> Some (Inl e, w0)
                    | Inr it \<Rightarrow>
                        (case copy_loop it L of None \<Rightarrow> None
                         | Some (res, L2) \<Rightarrow> Some (res, commit this L2 w0))))))"

text \<open>
  \<^verbatim>\<open>List(List<Type>&& Moved) noexcept : size(Moved.size), head(Moved.head), tail(Moved.tail),
  NIL(nullptr) { Moved.size = 0; Moved.head = nullptr; Moved.tail = nullptr; }\<close>
\<close>

definition move_construct :: "addr \<Rightarrow> addr \<Rightarrow> ('a world, unit) action" where
  "move_construct this Moved w =
     (case objs w Moved of None \<Rightarrow> (Inl Undefined, w)
      | Some m \<Rightarrow> (Inr (), w\<lparr>objs := (objs w)(this \<mapsto> m, Moved \<mapsto> (0, None, None))\<rparr>))"

text \<open>\<^verbatim>\<open>~List() { Clear(); }\<close>, after which the object is gone.\<close>

definition destroy :: "addr \<Rightarrow> 'a world \<Rightarrow> ((error + unit) \<times> 'a world) option" where
  "destroy this w =
     (case view w this of None \<Rightarrow> Some (Inl Undefined, w)
      | Some L \<Rightarrow>
          (case Clear L of None \<Rightarrow> None
           | Some (res, L1) \<Rightarrow>
               Some (res, (commit this L1 w)\<lparr>objs := (objs w)(this := None)\<rparr>)))"

text \<open>A call of a member function on the object at \<open>this\<close>.\<close>

definition member :: "addr \<Rightarrow> ('a::ord) call \<Rightarrow> 'a world \<Rightarrow> 'a world option" where
  "member this c w =
     (case view w this of None \<Rightarrow> Some w
      | Some L \<Rightarrow> map_option (\<lambda>L'. commit this L' w) (run c L))"

text \<open>
  The public operations of \<^verbatim>\<open>List\<close> that can change a list object. A constructor
  runs on storage that holds no list object; asked for an address that holds one,
  \<open>perform\<close> leaves the world as it is, and so do the other operations asked for an
  address that holds none. \<open>perform\<close> gives the world after the operation, returned
  from or thrown out of, and \<open>None\<close> if it does not come back. A world is reachable
  when any number of operations led to it from the world without objects.
\<close>

datatype 'a operation =
    Default_constructor addr
  | Constructor_from addr "'a list"
  | Copy_constructor addr addr
  | Move_constructor addr addr
  | Destructor addr
  | Member_call addr "'a call"
  | Copy_assignment addr addr
  | Move_assignment addr addr

fun perform :: "('a::ord) operation \<Rightarrow> 'a world \<Rightarrow> 'a world option" where
  "perform (Default_constructor this) w =
     (if objs w this = None then Some (construct this w) else Some w)"
| "perform (Constructor_from this xs) w =
     (if objs w this = None then Some (snd (construct_from this xs w)) else Some w)"
| "perform (Copy_constructor this Copied) w =
     (if objs w this = None then map_option snd (copy_construct this Copied w) else Some w)"
| "perform (Move_constructor this Moved) w =
     (if objs w this = None then Some (snd (move_construct this Moved w)) else Some w)"
| "perform (Destructor this) w = map_option snd (destroy this w)"
| "perform (Member_call this c) w = member this c w"
| "perform (Copy_assignment this Copied) w = map_option snd (copy_assign this Copied w)"
| "perform (Move_assignment this Moved) w = map_option snd (move_assign this Moved w)"

inductive world_reachable :: "('a::ord) world \<Rightarrow> bool" where
  initial: "world_reachable empty_world"
| performed: "world_reachable w \<Longrightarrow> perform operation w = Some w' \<Longrightarrow> world_reachable w'"

text \<open>
  \<open>separate w rep\<close>: every list object of the world \<open>w\<close> is a well-formed list on
  the nodes and cells that \<open>rep\<close> gives for its address, and no two objects share a
  node or a cell.
\<close>

definition separate :: "'a world \<Rightarrow> (addr \<Rightarrow> addr list \<times> addr list) \<Rightarrow> bool" where
  "separate w rep \<longleftrightarrow>
     (\<forall>a L. view w a = Some L \<longrightarrow> is_list L (fst (rep a)) (snd (rep a))) \<and>
     (\<forall>a b. a \<noteq> b \<longrightarrow> objs w a \<noteq> None \<longrightarrow> objs w b \<noteq> None \<longrightarrow>
        set (fst (rep a)) \<inter> set (fst (rep b)) = {} \<and>
        set (snd (rep a)) \<inter> set (snd (rep b)) = {})"

lemma view_Some:
  "view w a = Some L \<longleftrightarrow>
     objs w a = Some (lsize L, head L, tail L) \<and> nodes L = wnodes w \<and> cells L = wcells w \<and>
     brk L = wbrk w"
  by (cases L) (auto simp: view_def split: option.splits)

lemma view_None: "view w a = None \<longleftrightarrow> objs w a = None"
  by (auto simp: view_def split: option.splits)

lemma separateD:
  "separate w rep \<Longrightarrow> view w a = Some L \<Longrightarrow> is_list L (fst (rep a)) (snd (rep a))"
  by (simp add: separate_def)

lemma separate_disjoint:
  "separate w rep \<Longrightarrow> a \<noteq> b \<Longrightarrow> objs w a \<noteq> None \<Longrightarrow> objs w b \<noteq> None \<Longrightarrow>
     set (fst (rep a)) \<inter> set (fst (rep b)) = {} \<and> set (snd (rep a)) \<inter> set (snd (rep b)) = {}"
  by (simp add: separate_def)

lemma is_list_bound:
  "is_list L ps ds \<Longrightarrow> q \<in> set ps \<Longrightarrow> q < brk L"
  "is_list L ps ds \<Longrightarrow> d \<in> set ds \<Longrightarrow> d < brk L"
  by (auto simp: is_list_def in_set_conv_nth)

lemma is_list_cell_mem: "is_list L ps ds \<Longrightarrow> d \<in> set ds \<Longrightarrow> cells L d \<noteq> None"
  by (auto simp: is_list_def in_set_conv_nth)

lemma is_list_frame:
  assumes L: "is_list L ps ds"
    and "lsize L' = lsize L" and "head L' = head L" and "tail L' = tail L"
    and "brk L \<le> brk L'"
    and n: "\<And>q. q \<in> set ps \<Longrightarrow> nodes L' q = nodes L q"
    and c: "\<And>d. d \<in> set ds \<Longrightarrow> cells L' d \<noteq> None"
  shows "is_list L' ps ds"
proof -
  from L have len: "length ds = length ps" by (simp add: is_list_def)
  have "nodes L' (ps ! i) = Some (link ps ds i)" if "i < length ps" for i
    using that L n [of "ps ! i"] by (simp add: is_list_def)
  moreover have "cells L' (ds ! i) \<noteq> None" if "i < length ps" for i
    using that len c [of "ds ! i"] by simp
  moreover have "ps ! i < brk L' \<and> ds ! i < brk L'" if "i < length ps" for i
  proof -
    from that L have "ps ! i < brk L \<and> ds ! i < brk L" by (simp add: is_list_def)
    with assms(5) show ?thesis by simp
  qed
  ultimately show ?thesis
    using L assms(2-4) by (simp add: is_list_def)
qed

lemma other_object_kept:
  assumes Lb: "is_list Lb pb db" and f: "frame L pa da L' ps' ds'"
    and st: "nodes Lb = nodes L" "cells Lb = cells L" "brk Lb = brk L"
    and dis: "set pa \<inter> set pb = {}" "set da \<inter> set db = {}"
    and fl: "lsize Lb' = lsize Lb" "head Lb' = head Lb" "tail Lb' = tail Lb"
    and st': "nodes Lb' = nodes L'" "cells Lb' = cells L'" "brk Lb' = brk L'"
  shows "is_list Lb' pb db" and "set ps' \<inter> set pb = {}" and "set ds' \<inter> set db = {}"
proof -
  show "is_list Lb' pb db"
  proof (rule is_list_frame [OF Lb fl])
    from f st st' show "brk Lb \<le> brk Lb'" by (simp add: frame_def)
    show "nodes Lb' q = nodes Lb q" if "q \<in> set pb" for q
    proof -
      from that dis have "q \<notin> set pa" by auto
      moreover from is_list_bound(1) [OF Lb that] st have "q < brk L" by simp
      ultimately show ?thesis using f st st' by (simp add: frame_def)
    qed
    show "cells Lb' d \<noteq> None" if "d \<in> set db" for d
    proof -
      from that dis have "d \<notin> set da" by auto
      moreover from is_list_bound(2) [OF Lb that] st have "d < brk L" by simp
      moreover from is_list_cell_mem [OF Lb that] st have "cells L d \<noteq> None" by simp
      ultimately show ?thesis using f st' by (simp add: frame_def)
    qed
  qed
  show "set ps' \<inter> set pb = {}"
  proof (rule ccontr)
    assume "set ps' \<inter> set pb \<noteq> {}"
    then obtain q where q: "q \<in> set ps'" "q \<in> set pb" by auto
    from is_list_bound(1) [OF Lb q(2)] st have "q < brk L" by simp
    with q(1) f have "q \<in> set pa" by (auto simp: frame_def)
    with q(2) dis show False by auto
  qed
  show "set ds' \<inter> set db = {}"
  proof (rule ccontr)
    assume "set ds' \<inter> set db \<noteq> {}"
    then obtain d where d: "d \<in> set ds'" "d \<in> set db" by auto
    from is_list_bound(2) [OF Lb d(2)] st have "d < brk L" by simp
    with d(1) f have "d \<in> set da" by (auto simp: frame_def)
    with d(2) dis show False by auto
  qed
qed

lemma separate_commit:
  assumes S: "separate w rep" and v: "view w a = Some L"
    and l: "is_list L' ps' ds'"
    and f: "frame L (fst (rep a)) (snd (rep a)) L' ps' ds'"
  shows "separate (commit a L' w) (rep(a := (ps', ds')))"
  unfolding separate_def
proof (rule conjI; intro allI impI)
  fix b Lb
  assume vb: "view (commit a L' w) b = Some Lb"
  show "is_list Lb (fst ((rep(a := (ps', ds'))) b)) (snd ((rep(a := (ps', ds'))) b))"
  proof (cases "b = a")
    case True
    with vb have "Lb = L'"
      by (cases L', cases Lb) (simp add: view_Some commit_def)
    with True l show ?thesis by simp
  next
    case False
    from vb False have ob: "objs w b = Some (lsize Lb, head Lb, tail Lb)"
      and sb: "nodes Lb = nodes L'" "cells Lb = cells L'" "brk Lb = brk L'"
      by (simp_all add: view_Some commit_def)
    let ?Lb0 = "\<lparr>lsize = lsize Lb, head = head Lb, tail = tail Lb, nodes = wnodes w,
                  cells = wcells w, brk = wbrk w\<rparr>"
    from ob have vb0: "view w b = Some ?Lb0" by (simp add: view_def)
    from separateD [OF S vb0] have lb: "is_list ?Lb0 (fst (rep b)) (snd (rep b))" .
    from v have sL: "nodes ?Lb0 = nodes L" "cells ?Lb0 = cells L" "brk ?Lb0 = brk L"
      and oa: "objs w a \<noteq> None"
      by (simp_all add: view_Some)
    from separate_disjoint [OF S, of a b] False oa ob
    have dis: "set (fst (rep a)) \<inter> set (fst (rep b)) = {}"
      "set (snd (rep a)) \<inter> set (snd (rep b)) = {}"
      by auto
    from other_object_kept(1) [OF lb f sL dis, of Lb] sb
    have "is_list Lb (fst (rep b)) (snd (rep b))" by simp
    with False show ?thesis by simp
  qed
next
  fix b c
  assume bc: "b \<noteq> c" and ob: "objs (commit a L' w) b \<noteq> None"
    and oc: "objs (commit a L' w) c \<noteq> None"
  from v have sL: "nodes L = wnodes w" "cells L = wcells w" "brk L = wbrk w"
    and oa: "objs w a \<noteq> None"
    by (simp_all add: view_Some)
  have key: "set ps' \<inter> set (fst (rep x)) = {} \<and> set ds' \<inter> set (snd (rep x)) = {}"
    if x: "x \<noteq> a" "objs w x \<noteq> None" for x
  proof -
    from x(2) obtain n h t where ox: "objs w x = Some (n, h, t)" by auto
    let ?Lx = "\<lparr>lsize = n, head = h, tail = t, nodes = wnodes w,
                 cells = wcells w, brk = wbrk w\<rparr>"
    from ox have "view w x = Some ?Lx" by (simp add: view_def)
    from separateD [OF S this] have lx: "is_list ?Lx (fst (rep x)) (snd (rep x))" .
    from separate_disjoint [OF S, of a x] x oa
    have dis: "set (fst (rep a)) \<inter> set (fst (rep x)) = {}"
      "set (snd (rep a)) \<inter> set (snd (rep x)) = {}"
      by auto
    have e: "nodes ?Lx = nodes L" "cells ?Lx = cells L" "brk ?Lx = brk L"
      using sL by simp_all
    let ?Lx' = "?Lx\<lparr>nodes := nodes L', cells := cells L', brk := brk L'\<rparr>"
    from other_object_kept(2,3) [OF lx f e dis, of ?Lx'] show ?thesis by simp
  qed
  show "set (fst ((rep(a := (ps', ds'))) b)) \<inter> set (fst ((rep(a := (ps', ds'))) c)) = {} \<and>
        set (snd ((rep(a := (ps', ds'))) b)) \<inter> set (snd ((rep(a := (ps', ds'))) c)) = {}"
  proof (cases "b = a")
    case True
    with bc oc have "c \<noteq> a" "objs w c \<noteq> None" by (auto simp: commit_def)
    from key [OF this] True bc show ?thesis by simp
  next
    case False
    with ob have b: "b \<noteq> a" "objs w b \<noteq> None" by (auto simp: commit_def)
    show ?thesis
    proof (cases "c = a")
      case True
      from key [OF b] True False show ?thesis by (simp add: Int_commute)
    next
      case cf: False
      with oc have "objs w c \<noteq> None" by (auto simp: commit_def)
      from separate_disjoint [OF S bc b(2) this] False cf show ?thesis by simp
    qed
  qed
qed

text \<open>
  \<open>PushBack\<close> returns and stays within its frame, and so does the loop that copies
  another list, whose nodes the pushes leave alone.
\<close>

lemma PushBack_frame:
  assumes L: "is_list L ps ds"
  shows "\<exists>L' ps' ds'. PushBack Value L = (Inr (brk L), L') \<and> is_list L' ps' ds' \<and>
           frame L ps ds L' ps' ds'"
proof -
  let ?ps = "insert_at (insert_pos (lsize L) (lsize L)) (brk L + 1) ps"
  let ?ds = "insert_at (insert_pos (lsize L) (lsize L)) (brk L) ds"
  from Insert_is_list [OF L, of "lsize L" Value] obtain L' where
    r: "Insert (lsize L) Value L = (Inr (brk L), L')" and l: "is_list L' ?ps ?ds"
    and c: "cells L' = (cells L)(brk L \<mapsto> Value)" and b: "brk L' = brk L + 2"
    and f: "\<forall>q. q \<notin> set ps \<longrightarrow> q \<noteq> brk L + 1 \<longrightarrow> nodes L' q = nodes L q"
    by auto
  have "frame L ps ds L' ?ps ?ds"
    unfolding frame_def using c b f by (auto simp: set_insert_at)
  with r l show ?thesis by (auto simp: PushBack_def)
qed

lemma PushBack_all_frame:
  "is_list L ps ds \<Longrightarrow>
     \<exists>L' ps' ds'. PushBack_all xs L = (Inr (), L') \<and> is_list L' ps' ds' \<and>
       frame L ps ds L' ps' ds'"
proof (induction xs arbitrary: L ps ds)
  case Nil
  with frame_refl [of L ps ds] show ?case by auto
next
  case (Cons x xs)
  from PushBack_frame [OF Cons.prems, of x] obtain L1 ps1 ds1 where
    r: "PushBack x L = (Inr (brk L), L1)" and l: "is_list L1 ps1 ds1"
    and f: "frame L ps ds L1 ps1 ds1"
    by blast
  from Cons.IH [OF l] obtain L' ps' ds' where
    r': "PushBack_all xs L1 = (Inr (), L')" and l': "is_list L' ps' ds'"
    and f': "frame L1 ps1 ds1 L' ps' ds'"
    by blast
  from r r' have "PushBack_all (x # xs) L = (Inr (), L')" by simp
  with l' frame_trans [OF f f'] show ?case by blast
qed

lemma copy_loop_frame:
  assumes "is_list L pl dl"
    and "is_list (L\<lparr>lsize := n, head := h, tail := t\<rparr>) pc dc"
    and "set pl \<inter> set pc = {}" and "set dl \<inter> set dc = {}"
    and "i \<le> length pc"
  shows "\<exists>L' pl' dl'. copy_loop (if i = length pc then NIL else link pc dc i) L =
             Some (Inr (), L') \<and>
           is_list L' pl' dl' \<and> frame L pl dl L' pl' dl'"
  using assms
proof (induction "length pc - i" arbitrary: i L pl dl)
  case 0
  then have "i = length pc" by simp
  then have "copy_loop (if i = length pc then NIL else link pc dc i) L = Some (Inr (), L)"
    by (subst copy_loop.simps) (simp add: List_end_def Node_eq_def)
  with "0.prems"(1) frame_refl [of L pl dl] show ?case by blast
next
  case (Suc m)
  then have i: "i < length pc" by simp
  let ?C = "L\<lparr>lsize := n, head := h, tail := t\<rparr>"
  from is_list_cell [OF Suc.prems(2) i] obtain x where x: "cells L (dc ! i) = Some x"
    by auto
  from PushBack_frame [OF Suc.prems(1), of x] obtain L1 pl1 dl1 where
    r: "PushBack x L = (Inr (brk L), L1)" and l1: "is_list L1 pl1 dl1"
    and f: "frame L pl dl L1 pl1 dl1"
    by blast
  let ?C1 = "L1\<lparr>lsize := n, head := h, tail := t\<rparr>"
  have c1: "is_list ?C1 pc dc" and d1: "set pl1 \<inter> set pc = {}" "set dl1 \<inter> set dc = {}"
    using other_object_kept [OF Suc.prems(2) f _ _ _ Suc.prems(3,4), of ?C1] by simp_all
  have "nodes ?C1 = nodes L1" by simp
  then have "Node_inc L1 (link pc dc i) = Node_inc ?C1 (link pc dc i)"
    by (simp only: Node_inc_def node_at_def)
  with Node_inc_link [OF c1 i]
  have inc: "Node_inc L1 (link pc dc i) =
      Inr (if Suc i = length pc then NIL else link pc dc (Suc i))"
    by simp
  have step: "copy_loop (link pc dc i) L =
      copy_loop (if Suc i = length pc then NIL else link pc dc (Suc i)) L1"
    by (subst copy_loop.simps)
      (simp add: List_end_def link_not_NIL Node_deref_link load_def x r inc)
  from Suc.hyps(2) have m: "m = length pc - Suc i" by simp
  from i have si: "Suc i \<le> length pc" by simp
  from Suc.hyps(1) [OF m l1 c1 d1 si] obtain L' pl' dl' where
    r': "copy_loop (if Suc i = length pc then NIL else link pc dc (Suc i)) L1 =
           Some (Inr (), L')"
    and l': "is_list L' pl' dl'" and f': "frame L1 pl1 dl1 L' pl' dl'"
    by blast
  from step r' i have "copy_loop (if i = length pc then NIL else link pc dc i) L =
      Some (Inr (), L')"
    by simp
  with l' frame_trans [OF f f'] show ?case by blast
qed

text \<open>
  The loop of the copy constructor and of copy assignment: \<open>L1\<close> is the list at
  \<open>this\<close> when the loop starts, empty and within the frame of what the object held
  before.
\<close>

lemma separate_copy_into:
  assumes S: "separate w rep" and v: "view w this = Some L"
    and l1: "is_list L1 [] []" and f: "frame L (fst (rep this)) (snd (rep this)) L1 [] []"
    and vc: "view (commit this L1 w) Copied = Some C"
  shows "\<exists>it L2 rep'. List_begin C = Inr it \<and> copy_loop it L1 = Some (Inr (), L2) \<and>
           separate (commit this L2 w) rep'"
proof -
  let ?w1 = "commit this L1 w"
  from separate_commit [OF S v l1 f] have S1: "separate ?w1 (rep(this := ([], [])))" .
  let ?pc = "fst ((rep(this := ([], []))) Copied)" and ?dc = "snd ((rep(this := ([], []))) Copied)"
  from separateD [OF S1 vc] have c: "is_list C ?pc ?dc" .
  from vc have sc: "nodes C = nodes L1" "cells C = cells L1" "brk C = brk L1"
    by (simp_all add: view_Some commit_def)
  let ?C = "L1\<lparr>lsize := lsize C, head := head C, tail := tail C\<rparr>"
  from sc have "?C = C" by (cases C, cases L1) simp
  with c have c': "is_list ?C ?pc ?dc" by simp
  from copy_loop_frame [OF l1 c', of 0] obtain L2 pl dl where
    r: "copy_loop (if 0 = length ?pc then NIL else link ?pc ?dc 0) L1 = Some (Inr (), L2)"
    and l2: "is_list L2 pl dl" and f2: "frame L1 [] [] L2 pl dl"
    by auto
  from separate_commit [OF S v l2 frame_trans [OF f f2]]
  have "separate (commit this L2 w) (rep(this := (pl, dl)))" .
  with r List_begin_is_list [OF c] show ?thesis by auto
qed

lemma copy_assign_separate:
  assumes S: "separate w rep"
  shows "\<exists>res w' rep'. copy_assign this Copied w = Some (res, w') \<and> separate w' rep'"
proof (cases "this = Copied")
  case True
  with S show ?thesis by (auto simp: copy_assign_def)
next
  case False
  show ?thesis
  proof (cases "view w this")
    case None
    with S False show ?thesis by (auto simp: copy_assign_def)
  next
    case (Some L)
    from Clear_frame [OF separateD [OF S Some]] obtain L1 where
      cl: "Clear L = Some (Inr (), L1)" and l1: "is_list L1 [] []"
      and f: "frame L (fst (rep this)) (snd (rep this)) L1 [] []"
      by blast
    show ?thesis
    proof (cases "view (commit this L1 w) Copied")
      case None
      with False Some cl separate_commit [OF S Some l1 f] show ?thesis
        by (auto simp: copy_assign_def)
    next
      case vc: (Some C)
      from separate_copy_into [OF S Some l1 f vc] obtain it L2 rep' where
        "List_begin C = Inr it" "copy_loop it L1 = Some (Inr (), L2)"
        "separate (commit this L2 w) rep'"
        by blast
      with False Some cl vc show ?thesis
        by (auto simp: copy_assign_def)
    qed
  qed
qed

lemma separate_steal:
  assumes S: "separate w rep" and m: "objs w Moved = Some m" and ne: "this \<noteq> Moved"
  shows "separate (w\<lparr>objs := (objs w)(this \<mapsto> m, Moved \<mapsto> (0, None, None))\<rparr>)
           (rep(this := rep Moved, Moved := ([], [])))"
  unfolding separate_def
proof (rule conjI; intro allI impI)
  let ?w = "w\<lparr>objs := (objs w)(this \<mapsto> m, Moved \<mapsto> (0, None, None))\<rparr>"
  let ?rep = "rep(this := rep Moved, Moved := ([], []))"
  fix a L
  assume v: "view ?w a = Some L"
  consider (moved) "a = Moved" | (this) "a = this" | (other) "a \<noteq> Moved" "a \<noteq> this"
    using ne by auto
  then show "is_list L (fst (?rep a)) (snd (?rep a))"
  proof cases
    case moved
    with v show ?thesis by (simp add: view_Some is_list_def)
  next
    case this
    with v ne m have "view w Moved = Some L" by (simp add: view_Some)
    from separateD [OF S this] \<open>a = this\<close> ne show ?thesis by simp
  next
    case other
    with v have "view w a = Some L" by (simp add: view_Some)
    from separateD [OF S this] other show ?thesis by simp
  qed
next
  let ?w = "w\<lparr>objs := (objs w)(this \<mapsto> m, Moved \<mapsto> (0, None, None))\<rparr>"
  let ?rep = "rep(this := rep Moved, Moved := ([], []))"
  fix a b
  assume ab: "a \<noteq> b" and oa: "objs ?w a \<noteq> None" and ob: "objs ?w b \<noteq> None"
  have old: "objs w x \<noteq> None" if "x \<noteq> this" "x \<noteq> Moved" "objs ?w x \<noteq> None" for x
    using that by simp
  have mv: "objs w Moved \<noteq> None" using m by simp
  have key: "set (fst (rep Moved)) \<inter> set (fst (rep x)) = {} \<and>
      set (snd (rep Moved)) \<inter> set (snd (rep x)) = {}"
    if "x \<noteq> Moved" "x \<noteq> this" "objs ?w x \<noteq> None" for x
  proof -
    from old [OF that(2,1,3)] have "objs w x \<noteq> None" .
    from separate_disjoint [OF S _ mv this, of ] that(1) show ?thesis by auto
  qed
  show "set (fst (?rep a)) \<inter> set (fst (?rep b)) = {} \<and>
        set (snd (?rep a)) \<inter> set (snd (?rep b)) = {}"
  proof (cases "a = Moved \<or> b = Moved")
    case True
    then show ?thesis by auto
  next
    case False
    then have nm: "a \<noteq> Moved" "b \<noteq> Moved" by auto
    show ?thesis
    proof (cases "a = this")
      case True
      with ab nm key [of b] ob show ?thesis by simp
    next
      case na: False
      show ?thesis
      proof (cases "b = this")
        case True
        with ab nm na key [of a] oa show ?thesis by (simp add: Int_commute)
      next
        case nb: False
        from separate_disjoint [OF S ab old [OF na nm(1) oa] old [OF nb nm(2) ob]] nm na nb
        show ?thesis by simp
      qed
    qed
  qed
qed

lemma move_assign_separate:
  assumes S: "separate w rep"
  shows "\<exists>res w' rep'. move_assign this Moved w = Some (res, w') \<and> separate w' rep'"
proof (cases "this = Moved")
  case True
  with S show ?thesis by (auto simp: move_assign_def)
next
  case False
  show ?thesis
  proof (cases "view w this")
    case None
    with S False show ?thesis by (auto simp: move_assign_def)
  next
    case (Some L)
    from Clear_frame [OF separateD [OF S Some]] obtain L1 where
      cl: "Clear L = Some (Inr (), L1)" and l1: "is_list L1 [] []"
      and f: "frame L (fst (rep this)) (snd (rep this)) L1 [] []"
      by blast
    let ?w1 = "commit this L1 w"
    from separate_commit [OF S Some l1 f] have S1: "separate ?w1 (rep(this := ([], [])))" .
    show ?thesis
    proof (cases "objs ?w1 Moved")
      case None
      with False Some cl S1 show ?thesis
        by (auto simp: move_assign_def Let_def)
    next
      case m: (Some m)
      from separate_steal [OF S1 m False] m False Some cl show ?thesis
        by (auto simp: move_assign_def Let_def)
    qed
  qed
qed

lemma separate_construct:
  assumes S: "separate w rep" and new: "objs w this = None"
  shows "separate (construct this w) (rep(this := ([], [])))"
  unfolding separate_def
proof (rule conjI; intro allI impI)
  fix a L
  assume v: "view (construct this w) a = Some L"
  show "is_list L (fst ((rep(this := ([], []))) a)) (snd ((rep(this := ([], []))) a))"
  proof (cases "a = this")
    case True
    with v show ?thesis by (simp add: view_Some construct_def is_list_def)
  next
    case False
    with v have "view w a = Some L" by (simp add: view_Some construct_def)
    from separateD [OF S this] False show ?thesis by simp
  qed
next
  fix a b
  assume ab: "a \<noteq> b" and oa: "objs (construct this w) a \<noteq> None"
    and ob: "objs (construct this w) b \<noteq> None"
  show "set (fst ((rep(this := ([], []))) a)) \<inter> set (fst ((rep(this := ([], []))) b)) = {} \<and>
        set (snd ((rep(this := ([], []))) a)) \<inter> set (snd ((rep(this := ([], []))) b)) = {}"
  proof (cases "a = this \<or> b = this")
    case True
    then show ?thesis by auto
  next
    case False
    with oa ob have "objs w a \<noteq> None" "objs w b \<noteq> None" by (auto simp: construct_def)
    from separate_disjoint [OF S ab this] False show ?thesis by simp
  qed
qed

lemma view_construct: "view (construct this w) this =
    Some \<lparr>lsize = 0, head = None, tail = None, nodes = wnodes w, cells = wcells w, brk = wbrk w\<rparr>"
  by (simp add: view_def construct_def)

lemma construct_from_separate:
  assumes S: "separate w rep" and new: "objs w this = None"
  shows "\<exists>rep'. separate (snd (construct_from this xs w)) rep'"
proof -
  let ?w0 = "construct this w"
  let ?L = "\<lparr>lsize = 0, head = None, tail = None, nodes = wnodes w, cells = wcells w,
              brk = wbrk w\<rparr>"
  note S0 = separate_construct [OF S new]
  have v: "view ?w0 this = Some ?L" by (rule view_construct)
  from separateD [OF S0 v] have l: "is_list ?L [] []" by simp
  from PushBack_all_frame [OF l, of xs] obtain L' ps' ds' where
    r: "PushBack_all xs ?L = (Inr (), L')" and l': "is_list L' ps' ds'"
    and f: "frame ?L [] [] L' ps' ds'"
    by blast
  from separate_commit [OF S0 v l'] f
  have "separate (commit this L' ?w0) ((rep(this := ([], [])))(this := (ps', ds')))" by simp
  with v r show ?thesis
    by (auto simp: construct_from_def Let_def)
qed

lemma copy_construct_separate:
  assumes S: "separate w rep" and new: "objs w this = None"
  shows "\<exists>res w' rep'. copy_construct this Copied w = Some (res, w') \<and> separate w' rep'"
proof -
  let ?w0 = "construct this w"
  let ?L = "\<lparr>lsize = 0, head = None, tail = None, nodes = wnodes w, cells = wcells w,
              brk = wbrk w\<rparr>"
  note S0 = separate_construct [OF S new]
  have v: "view ?w0 this = Some ?L" by (rule view_construct)
  from separateD [OF S0 v] have l: "is_list ?L [] []" by simp
  have c: "commit this ?L ?w0 = ?w0"
    by (simp add: commit_def construct_def)
  have f: "frame ?L (fst ((rep(this := ([], []))) this)) (snd ((rep(this := ([], []))) this)) ?L [] []"
    by (simp add: frame_refl)
  show ?thesis
  proof (cases "view ?w0 Copied")
    case None
    with v S0 show ?thesis
      by (auto simp: copy_construct_def Let_def)
  next
    case (Some C)
    then have "view (commit this ?L ?w0) Copied = Some C" by (simp only: c)
    from separate_copy_into [OF S0 v l f this] obtain it L2 rep' where
      "List_begin C = Inr it" "copy_loop it ?L = Some (Inr (), L2)"
      "separate (commit this L2 ?w0) rep'"
      by blast
    with v Some show ?thesis
      by (auto simp: copy_construct_def Let_def)
  qed
qed

lemma move_construct_separate:
  assumes S: "separate w rep" and new: "objs w this = None"
  shows "\<exists>rep'. separate (snd (move_construct this Moved w)) rep'"
proof (cases "objs w Moved")
  case None
  with S show ?thesis by (auto simp: move_construct_def)
next
  case (Some m)
  with new have "this \<noteq> Moved" by auto
  from separate_steal [OF S Some this] Some show ?thesis
    by (auto simp: move_construct_def)
qed

lemma separate_remove:
  assumes S: "separate w rep"
  shows "separate (w\<lparr>objs := (objs w)(this := None)\<rparr>) rep"
  unfolding separate_def
proof (rule conjI; intro allI impI)
  fix a L
  assume "view (w\<lparr>objs := (objs w)(this := None)\<rparr>) a = Some L"
  then have "view w a = Some L" by (simp add: view_Some split: if_splits)
  from separateD [OF S this] show "is_list L (fst (rep a)) (snd (rep a))" .
next
  fix a b
  assume "a \<noteq> b" "objs (w\<lparr>objs := (objs w)(this := None)\<rparr>) a \<noteq> None"
    "objs (w\<lparr>objs := (objs w)(this := None)\<rparr>) b \<noteq> None"
  then have "a \<noteq> b" "objs w a \<noteq> None" "objs w b \<noteq> None" by (auto split: if_splits)
  from separate_disjoint [OF S this]
  show "set (fst (rep a)) \<inter> set (fst (rep b)) = {} \<and> set (snd (rep a)) \<inter> set (snd (rep b)) = {}" .
qed

lemma destroy_separate:
  assumes S: "separate w rep"
  shows "\<exists>res w' rep'. destroy this w = Some (res, w') \<and> separate w' rep'"
proof (cases "view w this")
  case None
  with S show ?thesis by (auto simp: destroy_def)
next
  case (Some L)
  from Clear_frame [OF separateD [OF S Some]] obtain L1 where
    cl: "Clear L = Some (Inr (), L1)" and l1: "is_list L1 [] []"
    and f: "frame L (fst (rep this)) (snd (rep this)) L1 [] []"
    by blast
  let ?w1 = "commit this L1 w"
  from separate_remove [OF separate_commit [OF S Some l1 f], of this]
  have "separate (?w1\<lparr>objs := (objs ?w1)(this := None)\<rparr>) (rep(this := ([], [])))" .
  moreover have "(objs ?w1)(this := None) = (objs w)(this := None)"
    by (simp add: commit_def)
  ultimately have "separate (?w1\<lparr>objs := (objs w)(this := None)\<rparr>) (rep(this := ([], [])))"
    by simp
  with Some cl show ?thesis by (auto simp: destroy_def)
qed

lemma member_separate:
  assumes S: "separate w rep"
  shows "\<exists>w' rep'. member this c w = Some w' \<and> separate w' rep'"
proof (cases "view w this")
  case None
  with S show ?thesis by (auto simp: member_def)
next
  case (Some L)
  from run_frame [OF separateD [OF S Some], of c] obtain L' ps' ds' where
    r: "run c L = Some L'" and l: "is_list L' ps' ds'"
    and f: "frame L (fst (rep this)) (snd (rep this)) L' ps' ds'"
    by blast
  from separate_commit [OF S Some l f] Some r show ?thesis
    by (auto simp: member_def)
qed

lemma perform_separate:
  assumes S: "separate w rep"
  shows "\<exists>w' rep'. perform operation w = Some w' \<and> separate w' rep'"
proof (cases operation)
  case (Default_constructor this)
  with S separate_construct [OF S, of this] show ?thesis by auto
next
  case (Constructor_from this xs)
  with S construct_from_separate [OF S, of this xs] show ?thesis by auto
next
  case (Copy_constructor this Copied)
  with S copy_construct_separate [OF S, of this Copied] show ?thesis by auto
next
  case (Move_constructor this Moved)
  with S move_construct_separate [OF S, of this Moved] show ?thesis by auto
next
  case (Destructor this)
  with destroy_separate [OF S, of this] show ?thesis by auto
next
  case (Member_call this c)
  with member_separate [OF S, of this c] show ?thesis by auto
next
  case (Copy_assignment this Copied)
  with copy_assign_separate [OF S, of this Copied] show ?thesis by auto
next
  case (Move_assignment this Moved)
  with move_assign_separate [OF S, of this Moved] show ?thesis by auto
qed

lemma separate_empty_world: "separate empty_world (\<lambda>a. ([], []))"
  by (simp add: separate_def empty_world_def view_def)

lemma world_reachable_separate: "world_reachable w \<Longrightarrow> \<exists>rep. separate w rep"
proof (induction rule: world_reachable.induct)
  case initial
  from separate_empty_world show ?case by blast
next
  case (performed w operation w')
  then obtain rep where "separate w rep" by blast
  from perform_separate [OF this, of operation] performed.hyps(2) show ?case by auto
qed

lemma separate_structural_invariant:
  "separate w rep \<Longrightarrow> view w a = Some L \<Longrightarrow> structural_invariant L"
  using separateD is_list_structural_invariant by blast

text \<open>
  A world with two objects: the list \<open>[10, 20, 30]\<close> at address 0 and an empty list
  at address 1.
\<close>

definition two_lists :: "int world" where
  "two_lists = construct 1 (snd (construct_from 0 [10, 20, 30] empty_world))"

lemma world_reachable_two_lists: "world_reachable two_lists"
proof -
  have a: "perform (Constructor_from 0 [10, 20, 30 :: int]) empty_world =
      Some (snd (construct_from 0 [10, 20, 30] empty_world))"
    by (simp add: empty_world_def)
  have "objs (snd (construct_from 0 [10, 20, 30 :: int] empty_world)) 1 = None"
    by code_simp
  then have b: "perform (Default_constructor 1) (snd (construct_from 0 [10, 20, 30 :: int] empty_world)) =
      Some two_lists"
    by (simp add: two_lists_def)
  from world_reachable.performed [OF world_reachable.performed [OF world_reachable.initial a] b]
  show ?thesis .
qed

lemma copy_into_second:
  "map_option (\<lambda>w. map_option lsize (view w 1)) (perform (Copy_assignment 1 0) two_lists) =
     Some (Some 3)"
  by code_simp


lemma moves_on_two_lists:
  "map_option (\<lambda>w. (map_option lsize (view w 0), map_option lsize (view w 1)))
     (perform (Move_assignment 1 0) two_lists) = Some (Some 0, Some 3) \<and>
   map_option (\<lambda>w. (map_option lsize (view w 0), map_option lsize (view w 2)))
     (perform (Move_constructor 2 0) two_lists) = Some (Some 0, Some 3) \<and>
   map_option (\<lambda>w. (map_option lsize (view w 0), map_option lsize (view w 2)))
     (perform (Copy_constructor 2 0) two_lists) = Some (Some 3, Some 3)"
  by code_simp

text \<open>
  Claim C8. Every list that the default constructor and the member functions can
  produce satisfies the structural invariant, and every further call on it comes back
  (returning or throwing) with a list that satisfies it again. The same holds among
  several list objects in one free store: in every world that the constructors, the
  destructor, the member functions and copy and move assignment can produce, every
  list object satisfies the structural invariant, and every further operation comes
  back with a world in which every list object satisfies it.
\<close>

theorem public_operations_keep_invariant:
  assumes "reachable L" and "world_reachable w"
  shows "structural_invariant L \<and> (\<exists>L'. run c L = Some L' \<and> structural_invariant L') \<and>
         (\<forall>a M. view w a = Some M \<longrightarrow> structural_invariant M) \<and>
         (\<exists>w'. perform operation w = Some w' \<and>
               (\<forall>a M. view w' a = Some M \<longrightarrow> structural_invariant M))"
proof -
  from reachable_is_list [OF assms(1)] obtain ps ds where L: "is_list L ps ds" by blast
  from run_keeps_list [OF L, of c] obtain L' ps' ds' where
    r: "run c L = Some L'" "is_list L' ps' ds'"
    by blast
  from world_reachable_separate [OF assms(2)] obtain rep where S: "separate w rep" ..
  from perform_separate [OF S, of operation] obtain w' rep' where
    p: "perform operation w = Some w'" and S': "separate w' rep'"
    by blast
  have "structural_invariant L" "structural_invariant L'"
    using L r(2) by (auto intro: is_list_structural_invariant)
  moreover have "\<forall>a M. view w a = Some M \<longrightarrow> structural_invariant M"
    using separate_structural_invariant [OF S] by blast
  moreover have "\<forall>a M. view w' a = Some M \<longrightarrow> structural_invariant M"
    using separate_structural_invariant [OF S'] by blast
  ultimately show ?thesis using r(1) p by blast
qed

theorem public_operations_keep_invariant_witness:
  "structural_invariant (List_of [10, 20, 30, 40, 50 :: int]) \<and>
   structural_invariant (snd (Erase 3 (List_of [10, 20, 30, 40, 50 :: int]))) \<and>
   (\<exists>w' M. perform (Copy_assignment 1 0) two_lists = Some w' \<and> view w' 1 = Some M \<and>
      lsize M = 3 \<and> structural_invariant M)"
proof -
  from public_operations_keep_invariant [OF reachable_List_of world_reachable_two_lists,
      of "[10, 20, 30, 40, 50 :: int]" "Call_Erase 3" "Copy_assignment 1 0"]
  obtain w' where a: "structural_invariant (List_of [10, 20, 30, 40, 50 :: int])"
    and b: "structural_invariant (snd (Erase 3 (List_of [10, 20, 30, 40, 50 :: int])))"
    and p: "perform (Copy_assignment 1 0) two_lists = Some w'"
    and inv: "\<forall>a M. view w' a = Some M \<longrightarrow> structural_invariant M"
    by auto
  from copy_into_second p obtain M where M: "view w' 1 = Some M" "lsize M = 3"
    by auto
  with inv have "structural_invariant M" by blast
  with a b p M show ?thesis by blast
qed

section \<open>Swapping twice, on a concrete list\<close>

lemma lsize_List_of_5: "lsize (List_of [10, 20, 30, 40, 50 :: int]) = 5"
  by code_simp

theorem Swap_twice_restores_witness:
  "fst (Swap 3 0 (List_of [10, 20, 30, 40, 50 :: int])) = Inr () \<and>
   Swap 3 0 (snd (Swap 3 0 (List_of [10, 20, 30, 40, 50 :: int])))
     = (Inr (), List_of [10, 20, 30, 40, 50]) \<and>
   Swap 3 3 (List_of [10, 20, 30, 40, 50 :: int]) = (Inr (), List_of [10, 20, 30, 40, 50])"
proof -
  from reachable_is_list [OF reachable_List_of] obtain ps ds
    where "is_list (List_of [10, 20, 30, 40, 50 :: int]) ps ds" by blast
  from Swap_twice_restores [OF this, of 3 0] show ?thesis
    by (simp add: lsize_List_of_5)
qed

section \<open>The sorting functions on arrays\<close>

lemma Array_at [simp]: "i < length c \<Longrightarrow> at Array_indexable c i = Inr i"
  by (simp add: Array_indexable_def)

lemma Array_fetch [simp]: "i < length c \<Longrightarrow> fetch Array_indexable c i = Inr (c ! i)"
  by (simp add: Array_indexable_def)

lemma Array_put [simp]: "i < length c \<Longrightarrow> put Array_indexable i v c = (Inr (), c[i := v])"
  by (simp add: Array_indexable_def)

lemma Array_element: "i < length c \<Longrightarrow> element Array_indexable i c = (Inr (c ! i), c)"
  by (simp add: element_def rd_def)

lemma Array_assign: "i < length c \<Longrightarrow> assign Array_indexable i v c = (Inr (), c[i := v])"
  by (simp add: assign_def seq_def rd_def)

lemma Array_exchange:
  "i < length c \<Longrightarrow> j < length c \<Longrightarrow>
     exchange Array_indexable i j c = (Inr (), c[i := c ! j, j := c ! i])"
  by (simp add: exchange_def assign_from_def seq_def rd_def Array_element Array_assign)

lemma Array_compare_at:
  "i < length c \<Longrightarrow> j < length c \<Longrightarrow>
     compare_at Array_indexable Comparer i j c = (Inr (Comparer (c ! i) (c ! j)), c)"
  by (simp add: compare_at_def seq_def rd_def ret_def)

text \<open>
  \<open>in_order Comparer n c\<close>: the comparer holds for no two neighbours among the first
  \<open>n\<close> elements of \<open>c\<close>. This is what \<open>IsSorted\<close> computes on an array.
\<close>

definition in_order :: "('a \<Rightarrow> 'a \<Rightarrow> bool) \<Rightarrow> nat \<Rightarrow> 'a list \<Rightarrow> bool" where
  "in_order Comparer n c \<longleftrightarrow> (\<forall>i. Suc i < n \<longrightarrow> \<not> Comparer (c ! i) (c ! Suc i))"

lemma size_sub_simple [simp]: "b \<le> a \<Longrightarrow> size_sub a b = a - b"
  by (simp add: size_sub_def)

lemma Array_IsSorted_loop:
  assumes "1 \<le> n" and "n \<le> length c"
  shows "IsSorted_loop Array_indexable n Comparer k c =
     (Inr (\<forall>i. k \<le> i \<and> Suc i < n \<longrightarrow> \<not> Comparer (c ! i) (c ! Suc i)), c)"
proof (induction "n - k" arbitrary: k rule: less_induct)
  case less
  show ?case
  proof (cases "k < n - 1")
    case False
    with assms have "IsSorted_loop Array_indexable n Comparer k c = (Inr True, c)"
      by (subst IsSorted_loop.simps) (simp add: ret_def)
    moreover from False have "\<forall>i. k \<le> i \<and> Suc i < n \<longrightarrow> \<not> Comparer (c ! i) (c ! Suc i)"
      by auto
    ultimately show ?thesis by simp
  next
    case True
    with assms have cmp: "compare_at Array_indexable Comparer k (Suc k) c = (Inr (Comparer (c ! k) (c ! Suc k)), c)"
      by (simp add: Array_compare_at)
    from True have "n - Suc k < n - k" by simp
    note IH = less [OF this]
    have split: "(\<forall>i. k \<le> i \<and> Suc i < n \<longrightarrow> \<not> Comparer (c ! i) (c ! Suc i)) \<longleftrightarrow>
        \<not> Comparer (c ! k) (c ! Suc k) \<and> (\<forall>i. Suc k \<le> i \<and> Suc i < n \<longrightarrow> \<not> Comparer (c ! i) (c ! Suc i))"
    proof (intro iffI conjI allI impI)
      assume a: "\<forall>i. k \<le> i \<and> Suc i < n \<longrightarrow> \<not> Comparer (c ! i) (c ! Suc i)"
      from a True show "\<not> Comparer (c ! k) (c ! Suc k)" by auto
      fix i assume "Suc k \<le> i \<and> Suc i < n"
      with a show "\<not> Comparer (c ! i) (c ! Suc i)" by auto
    next
      fix i
      assume b: "\<not> Comparer (c ! k) (c ! Suc k) \<and>
          (\<forall>i. Suc k \<le> i \<and> Suc i < n \<longrightarrow> \<not> Comparer (c ! i) (c ! Suc i))"
        and i: "k \<le> i \<and> Suc i < n"
      show "\<not> Comparer (c ! i) (c ! Suc i)"
      proof (cases "i = k")
        case True
        with b show ?thesis by simp
      next
        case False
        with i have "Suc k \<le> i \<and> Suc i < n" by auto
        with b show ?thesis by blast
      qed
    qed
    show ?thesis
      using True assms
      by (subst IsSorted_loop.simps) (simp add: cmp seq_def ret_def IH split)
  qed
qed

lemma Array_IsSorted:
  "1 \<le> n \<Longrightarrow> n \<le> length c \<Longrightarrow>
     IsSorted Array_indexable n Comparer c = (Inr (in_order Comparer n c), c)"
  by (simp add: IsSorted_def Array_IsSorted_loop in_order_def)


text \<open>
  A comparer that can order a collection: it never holds both ways, and where it holds
  neither from \<open>a\<close> to \<open>b\<close> nor from \<open>b\<close> to \<open>c\<close> it does not hold from
  \<open>a\<close> to \<open>c\<close>. \<open>GreaterThan\<close> on a linear order is one.
\<close>

definition strict_weak_order :: "('a \<Rightarrow> 'a \<Rightarrow> bool) \<Rightarrow> bool" where
  "strict_weak_order Comparer \<longleftrightarrow>
     (\<forall>a b. Comparer a b \<longrightarrow> \<not> Comparer b a) \<and>
     (\<forall>a b c. \<not> Comparer a b \<longrightarrow> \<not> Comparer b c \<longrightarrow> \<not> Comparer a c)"

lemma swo_asym: "strict_weak_order Comparer \<Longrightarrow> Comparer a b \<Longrightarrow> \<not> Comparer b a"
  unfolding strict_weak_order_def by blast

lemma swo_irrefl: "strict_weak_order Comparer \<Longrightarrow> \<not> Comparer a a"
  unfolding strict_weak_order_def by blast

lemma swo_negtrans:
  "strict_weak_order Comparer \<Longrightarrow> \<not> Comparer a b \<Longrightarrow> \<not> Comparer b c \<Longrightarrow> \<not> Comparer a c"
  unfolding strict_weak_order_def by blast

lemma swo_trans:
  assumes "strict_weak_order Comparer" and "Comparer a b" and "Comparer b c"
  shows "Comparer a c"
proof (rule ccontr)
  assume "\<not> Comparer a c"
  moreover from swo_asym [OF assms(1,3)] have "\<not> Comparer c b" .
  ultimately have "\<not> Comparer a b" by (rule swo_negtrans [OF assms(1)])
  with assms(2) show False by simp
qed

lemma swo_GreaterThan: "strict_weak_order (GreaterThan :: 'a::linorder \<Rightarrow> 'a \<Rightarrow> bool)"
  by (auto simp: strict_weak_order_def GreaterThan_def)

text \<open>A permutation that leaves the positions from k on alone permutes the first k.\<close>

lemma mset_take_frame:
  assumes "length c' = length c" and "mset c' = mset c"
    and "\<And>i. k \<le> i \<Longrightarrow> i < length c \<Longrightarrow> c' ! i = c ! i"
  shows "mset (take k c') = mset (take k c)"
proof -
  have "drop k c' = drop k c"
    using assms(1,3) by (intro nth_equalityI) simp_all
  moreover have "mset (take k c') + mset (drop k c') = mset (take k c) + mset (drop k c)"
    by (simp only: mset_append [symmetric] append_take_drop_id assms(2))
  ultimately show ?thesis by simp
qed

lemma set_take_frame:
  assumes "length c' = length c" and "mset c' = mset c"
    and "\<And>i. k \<le> i \<Longrightarrow> i < length c \<Longrightarrow> c' ! i = c ! i"
    and "i < k" and "k \<le> length c"
  shows "\<exists>j<k. c' ! i = c ! j"
proof -
  from mset_take_frame [OF assms(1,2,3)] have "set (take k c') = set (take k c)"
    by (auto dest: mset_eq_setD)
  moreover have "c' ! i \<in> set (take k c')"
  proof -
    from assms have "take k c' ! i = c' ! i" "i < length (take k c')" by simp_all
    then show ?thesis by (metis nth_mem)
  qed
  ultimately have "c' ! i \<in> set (take k c)" by simp
  then obtain j where "j < length (take k c)" "take k c ! j = c' ! i"
    by (auto simp: in_set_conv_nth)
  with assms(5) show ?thesis by (intro exI [of _ j]) simp
qed

text \<open>
  One pass of \<open>BubbleSort\<close> from position \<open>Rgt\<close>, where the element at
  \<open>Rgt\<close> is not below any element before it: the pass permutes the array, touches
  only the positions from \<open>Rgt\<close> to its bound, leaves at the bound an element that
  none of the earlier ones exceeds, and reports no swap only if it changed nothing and
  found every pair in order.
\<close>

lemma Array_BubbleSort_inner:
  assumes swo: "strict_weak_order Comparer" and Lft: "Lft + 1 \<le> n" and n: "n \<le> length c"
    and Rgt: "Rgt \<le> n - Lft - 1"
    and pre: "\<And>i. i < Rgt \<Longrightarrow> \<not> Comparer (c ! i) (c ! Rgt)"
  shows "\<exists>h' c'. BubbleSort_inner Array_indexable n Comparer Lft Rgt h c = (Inr h', c') \<and>
           length c' = length c \<and> mset c' = mset c \<and>
           (\<forall>i. i < Rgt \<or> n - Lft \<le> i \<longrightarrow> c' ! i = c ! i) \<and>
           (\<forall>i. i \<le> n - Lft - 1 \<longrightarrow> \<not> Comparer (c' ! i) (c' ! (n - Lft - 1))) \<and>
           (\<not> h' \<longrightarrow> \<not> h \<and> c' = c \<and>
              (\<forall>i. Rgt \<le> i \<and> i < n - Lft - 1 \<longrightarrow> \<not> Comparer (c ! i) (c ! Suc i)))"
  using n Rgt pre
proof (induction "n - Lft - 1 - Rgt" arbitrary: Rgt h c rule: less_induct)
  case less
  let ?b = "n - Lft - 1"
  from Lft have bound: "size_sub (size_sub n Lft) 1 = ?b" by simp
  note unfold = BubbleSort_inner.simps [of Array_indexable n Comparer Lft Rgt h c, unfolded bound]
  show ?case
  proof (cases "Rgt < ?b")
    case False
    with less.prems have R: "Rgt = ?b" by simp
    have run: "BubbleSort_inner Array_indexable n Comparer Lft Rgt h c = (Inr h, c)"
      using False unfold by (simp add: ret_def)
    have mx: "\<not> Comparer (c ! i) (c ! ?b)" if "i \<le> ?b" for i
    proof (cases "i = ?b")
      case True
      with swo_irrefl [OF swo] show ?thesis by simp
    next
      case False
      with that R less.prems(3) [of i] show ?thesis by simp
    qed
    show ?thesis
    proof (intro exI conjI)
      show "BubbleSort_inner Array_indexable n Comparer Lft Rgt h c = (Inr h, c)" by (rule run)
      show "\<forall>i. i \<le> ?b \<longrightarrow> \<not> Comparer (c ! i) (c ! ?b)" using mx by blast
      show "\<not> h \<longrightarrow> \<not> h \<and> c = c \<and> (\<forall>i. Rgt \<le> i \<and> i < ?b \<longrightarrow> \<not> Comparer (c ! i) (c ! Suc i))"
        using R by auto
    qed simp_all
  next
    case True
    with Lft less.prems(1) have ix: "Rgt < length c" "Suc Rgt < length c" by simp_all
    have cmp: "compare_at Array_indexable Comparer Rgt (Suc Rgt) c =
        (Inr (Comparer (c ! Rgt) (c ! Suc Rgt)), c)"
      using ix by (rule Array_compare_at)
    from True have m: "?b - Suc Rgt < ?b - Rgt" and R': "Suc Rgt \<le> ?b" by simp_all
    show ?thesis
    proof (cases "Comparer (c ! Rgt) (c ! Suc Rgt)")
      case gt: True
      let ?c1 = "c[Rgt := c ! Suc Rgt, Suc Rgt := c ! Rgt]"
      have ex: "exchange Array_indexable Rgt (Suc Rgt) c = (Inr (), ?c1)"
        using ix by (rule Array_exchange)
      have step: "BubbleSort_inner Array_indexable n Comparer Lft Rgt h c =
          BubbleSort_inner Array_indexable n Comparer Lft (Suc Rgt) True ?c1"
        using True gt unfold by (simp add: cmp ex seq_def)
      have len1: "length ?c1 = length c" by simp
      have mset1: "mset ?c1 = mset c"
        using ix mset_swap [of "Suc Rgt" c Rgt] by simp
      have pre1: "\<not> Comparer (?c1 ! i) (?c1 ! Suc Rgt)" if "i < Suc Rgt" for i
      proof (cases "i = Rgt")
        case True
        with ix gt swo_asym [OF swo] show ?thesis by simp
      next
        case False
        with that ix less.prems(3) [of i] show ?thesis by simp
      qed
      from less.prems(1) have n1: "n \<le> length ?c1" by simp
      from less.hyps [OF m n1 R' pre1, of True] obtain h' c' where
        r: "BubbleSort_inner Array_indexable n Comparer Lft (Suc Rgt) True ?c1 = (Inr h', c')"
        and l: "length c' = length ?c1" and ms: "mset c' = mset ?c1"
        and fr: "\<forall>i. i < Suc Rgt \<or> n - Lft \<le> i \<longrightarrow> c' ! i = ?c1 ! i"
        and mx: "\<forall>i. i \<le> ?b \<longrightarrow> \<not> Comparer (c' ! i) (c' ! ?b)"
        and h': "\<not> h' \<longrightarrow> \<not> True \<and> c' = ?c1 \<and>
              (\<forall>i. Suc Rgt \<le> i \<and> i < ?b \<longrightarrow> \<not> Comparer (?c1 ! i) (?c1 ! Suc i))"
        by blast
      from h' have h'T: "h'" by blast
      have frame: "c' ! i = c ! i" if "i < Rgt \<or> n - Lft \<le> i" for i
      proof -
        from that True have i: "i \<noteq> Rgt" "i \<noteq> Suc Rgt" "i < Suc Rgt \<or> n - Lft \<le> i" by auto
        with fr have "c' ! i = ?c1 ! i" by blast
        with i show ?thesis by simp
      qed
      show ?thesis
      proof (intro exI conjI)
        show "BubbleSort_inner Array_indexable n Comparer Lft Rgt h c = (Inr h', c')"
          using step r by simp
        show "length c' = length c" using l by simp
        show "mset c' = mset c" using ms mset1 by simp
        show "\<forall>i. i < Rgt \<or> n - Lft \<le> i \<longrightarrow> c' ! i = c ! i" using frame by blast
        show "\<forall>i. i \<le> ?b \<longrightarrow> \<not> Comparer (c' ! i) (c' ! ?b)" by (rule mx)
        show "\<not> h' \<longrightarrow> \<not> h \<and> c' = c \<and> (\<forall>i. Rgt \<le> i \<and> i < ?b \<longrightarrow> \<not> Comparer (c ! i) (c ! Suc i))"
          using h'T by simp
      qed
    next
      case le: False
      have step: "BubbleSort_inner Array_indexable n Comparer Lft Rgt h c =
          BubbleSort_inner Array_indexable n Comparer Lft (Suc Rgt) h c"
        using True le unfold by (simp add: cmp seq_def)
      have pre1: "\<not> Comparer (c ! i) (c ! Suc Rgt)" if "i < Suc Rgt" for i
      proof (cases "i = Rgt")
        case True
        with le show ?thesis by simp
      next
        case False
        with that have "i < Rgt" by simp
        from swo_negtrans [OF swo less.prems(3) [OF this] le] show ?thesis .
      qed
      from less.hyps [OF m less.prems(1) R' pre1, of h] obtain h' c' where
        r: "BubbleSort_inner Array_indexable n Comparer Lft (Suc Rgt) h c = (Inr h', c')"
        and l: "length c' = length c" and ms: "mset c' = mset c"
        and fr: "\<forall>i. i < Suc Rgt \<or> n - Lft \<le> i \<longrightarrow> c' ! i = c ! i"
        and mx: "\<forall>i. i \<le> ?b \<longrightarrow> \<not> Comparer (c' ! i) (c' ! ?b)"
        and h': "\<not> h' \<longrightarrow> \<not> h \<and> c' = c \<and>
              (\<forall>i. Suc Rgt \<le> i \<and> i < ?b \<longrightarrow> \<not> Comparer (c ! i) (c ! Suc i))"
        by blast
      have quiet: "\<not> Comparer (c ! i) (c ! Suc i)" if "\<not> h'" "Rgt \<le> i \<and> i < ?b" for i
      proof (cases "i = Rgt")
        case True
        with le show ?thesis by simp
      next
        case False
        with that(2) have "Suc Rgt \<le> i \<and> i < ?b" by auto
        with h' that(1) show ?thesis by blast
      qed
      show ?thesis
      proof (intro exI conjI)
        show "BubbleSort_inner Array_indexable n Comparer Lft Rgt h c = (Inr h', c')"
          using step r by simp
        show "length c' = length c" by (rule l)
        show "mset c' = mset c" by (rule ms)
        show "\<forall>i. i < Rgt \<or> n - Lft \<le> i \<longrightarrow> c' ! i = c ! i" using fr by auto
        show "\<forall>i. i \<le> ?b \<longrightarrow> \<not> Comparer (c' ! i) (c' ! ?b)" by (rule mx)
        show "\<not> h' \<longrightarrow> \<not> h \<and> c' = c \<and> (\<forall>i. Rgt \<le> i \<and> i < ?b \<longrightarrow> \<not> Comparer (c ! i) (c ! Suc i))"
          using h' quiet by blast
      qed
    qed
  qed
qed

text \<open>
  The passes of \<open>BubbleSort\<close> from pass \<open>Lft\<close> on, where the last \<open>Lft\<close>
  of the \<open>n\<close> elements are already in their final places.
\<close>

lemma Array_BubbleSort_outer:
  assumes swo: "strict_weak_order Comparer" and n1: "1 \<le> n" and n: "n \<le> length c"
    and Lft: "Lft \<le> n - 1"
    and inv: "\<And>i j. n - Lft \<le> j \<Longrightarrow> j < n \<Longrightarrow> i < j \<Longrightarrow> \<not> Comparer (c ! i) (c ! j)"
  shows "\<exists>c'. BubbleSort_outer Array_indexable n Comparer Lft c = (Inr (), c') \<and>
           length c' = length c \<and> mset c' = mset c \<and>
           (\<forall>i. n \<le> i \<longrightarrow> c' ! i = c ! i) \<and> in_order Comparer n c'"
  using n Lft inv
proof (induction "n - 1 - Lft" arbitrary: Lft c rule: less_induct)
  case less
  from n1 have bound: "size_sub n 1 = n - 1" by simp
  note unfold = BubbleSort_outer.simps [of Array_indexable n Comparer Lft c, unfolded bound]
  show ?case
  proof (cases "Lft < n - 1")
    case False
    with less.prems have L: "Lft = n - 1" by simp
    have run: "BubbleSort_outer Array_indexable n Comparer Lft c = (Inr (), c)"
      using False unfold by (simp add: ret_def)
    have "in_order Comparer n c"
      unfolding in_order_def
    proof (intro allI impI)
      fix i assume "Suc i < n"
      with L n1 have "n - Lft \<le> Suc i" by simp
      from less.prems(3) [OF this \<open>Suc i < n\<close>, of i] show "\<not> Comparer (c ! i) (c ! Suc i)" by simp
    qed
    with run show ?thesis by simp
  next
    case True
    let ?b = "n - Lft - 1"
    from True have L1: "Lft + 1 \<le> n" and b: "?b < n" "Suc ?b = n - Lft" by simp_all
    from Array_BubbleSort_inner [OF swo L1 less.prems(1), of 0 False] obtain h' c1 where
      r: "BubbleSort_inner Array_indexable n Comparer Lft 0 False c = (Inr h', c1)"
      and l: "length c1 = length c" and ms: "mset c1 = mset c"
      and fr: "\<forall>i. i < 0 \<or> n - Lft \<le> i \<longrightarrow> c1 ! i = c ! i"
      and mx: "\<forall>i. i \<le> ?b \<longrightarrow> \<not> Comparer (c1 ! i) (c1 ! ?b)"
      and q: "\<not> h' \<longrightarrow> \<not> False \<and> c1 = c \<and>
              (\<forall>i. 0 \<le> i \<and> i < ?b \<longrightarrow> \<not> Comparer (c ! i) (c ! Suc i))"
      by auto
    show ?thesis
    proof (cases h')
      case False
      with q have same: "c1 = c" and quiet: "\<And>i. i < ?b \<Longrightarrow> \<not> Comparer (c ! i) (c ! Suc i)"
        by auto
      have run: "BubbleSort_outer Array_indexable n Comparer Lft c = (Inr (), c)"
        using True False unfold r same by (simp add: seq_def ret_def)
      have "in_order Comparer n c"
        unfolding in_order_def
      proof (intro allI impI)
        fix i assume i: "Suc i < n"
        show "\<not> Comparer (c ! i) (c ! Suc i)"
        proof (cases "i < ?b")
          case True
          then show ?thesis by (rule quiet)
        next
          case False
          with b have "n - Lft \<le> Suc i" by simp
          from less.prems(3) [OF this i, of i] show ?thesis by simp
        qed
      qed
      with run show ?thesis by simp
    next
      case swapped: True
      have step: "BubbleSort_outer Array_indexable n Comparer Lft c =
          BubbleSort_outer Array_indexable n Comparer (Suc Lft) c1"
        using True swapped unfold r by (simp add: seq_def)
      have frame: "c1 ! i = c ! i" if "n - Lft \<le> i" for i
        using fr that by blast
      have inv1: "\<not> Comparer (c1 ! i) (c1 ! j)" if j: "n - Suc Lft \<le> j" "j < n" and i: "i < j" for i j
      proof (cases "j = ?b")
        case True
        with mx i show ?thesis by simp
      next
        case False
        with j b have jl: "n - Lft \<le> j" by simp
        show ?thesis
        proof (cases "n - Lft \<le> i")
          case True
          with frame [of i] frame [OF jl] less.prems(3) [OF jl j(2) i] show ?thesis by simp
        next
          case False
          then have "i < n - Lft" by simp
          moreover have "n - Lft \<le> length c" using less.prems(1) by simp
          ultimately obtain k where k: "k < n - Lft" "c1 ! i = c ! k"
            using set_take_frame [OF l ms, of "n - Lft" i] frame by blast
          with jl have "k < j" by simp
          from less.prems(3) [OF jl j(2) this] k frame [OF jl] show ?thesis by simp
        qed
      qed
      from True have m: "n - 1 - Suc Lft < n - 1 - Lft" and L': "Suc Lft \<le> n - 1" by simp_all
      from less.prems(1) l have n': "n \<le> length c1" by simp
      from less.hyps [OF m n' L' inv1] obtain c' where
        r': "BubbleSort_outer Array_indexable n Comparer (Suc Lft) c1 = (Inr (), c')"
        and l': "length c' = length c1" and ms': "mset c' = mset c1"
        and fr': "\<forall>i. n \<le> i \<longrightarrow> c' ! i = c1 ! i" and ord: "in_order Comparer n c'"
        by blast
      have "c' ! i = c ! i" if "n \<le> i" for i
      proof -
        from that have "n - Lft \<le> i" by simp
        from frame [OF this] fr' that show ?thesis by simp
      qed
      with step r' l' l ms' ms ord show ?thesis by simp
    qed
  qed
qed

lemma Array_BubbleSort:
  assumes "strict_weak_order Comparer" and "1 \<le> n" and "n \<le> length c"
  shows "\<exists>c'. BubbleSort Array_indexable n Comparer c = (Inr (), c') \<and>
           length c' = length c \<and> mset c' = mset c \<and>
           (\<forall>i. n \<le> i \<longrightarrow> c' ! i = c ! i) \<and> in_order Comparer n c'"
  unfolding BubbleSort_def
  using assms by (intro Array_BubbleSort_outer) simp_all

subsection \<open>MergeSort on arrays\<close>

text \<open>The list that the three loops of Merge write.\<close>

fun merged :: "('a \<Rightarrow> 'a \<Rightarrow> bool) \<Rightarrow> 'a list \<Rightarrow> 'a list \<Rightarrow> 'a list" where
  "merged Comparer [] rs = rs"
| "merged Comparer ls [] = ls"
| "merged Comparer (l # ls) (r # rs) =
     (if \<not> Comparer l r then l # merged Comparer ls (r # rs)
      else r # merged Comparer (l # ls) rs)"

lemma merged_Nil2 [simp]: "merged Comparer ls [] = ls"
  by (cases ls) simp_all

lemma mset_merged: "mset (merged Comparer ls rs) = mset ls + mset rs"
  by (induction Comparer ls rs rule: merged.induct) simp_all

lemma set_merged: "set (merged Comparer ls rs) = set ls \<union> set rs"
  by (induction Comparer ls rs rule: merged.induct) auto

lemma length_merged: "length (merged Comparer ls rs) = length ls + length rs"
  by (induction Comparer ls rs rule: merged.induct) simp_all

lemma sorted_merged:
  "strict_weak_order Comparer \<Longrightarrow> sorted_wrt (\<lambda>a b. \<not> Comparer a b) ls \<Longrightarrow>
     sorted_wrt (\<lambda>a b. \<not> Comparer a b) rs \<Longrightarrow>
     sorted_wrt (\<lambda>a b. \<not> Comparer a b) (merged Comparer ls rs)"
proof (induction Comparer ls rs rule: merged.induct)
  case (1 Comparer rs)
  then show ?case by simp
next
  case (2 Comparer v va)
  then show ?case by simp
next
  case (3 Comparer l ls r rs)
  show ?case
  proof (cases "Comparer l r")
    case False
    have "\<not> Comparer l x" if "x \<in> set (merged Comparer ls (r # rs))" for x
    proof -
      from that have "x \<in> set ls \<or> x = r \<or> x \<in> set rs" by (auto simp: set_merged)
      then show ?thesis
      proof (elim disjE)
        assume "x \<in> set ls" with "3.prems"(2) show ?thesis by simp
      next
        assume "x = r" with False show ?thesis by simp
      next
        assume "x \<in> set rs"
        with "3.prems"(3) have "\<not> Comparer r x" by simp
        from swo_negtrans [OF "3.prems"(1) False this] show ?thesis .
      qed
    qed
    with False "3.IH"(1) "3.prems" show ?thesis by simp
  next
    case True
    from swo_asym [OF "3.prems"(1) True] have rl: "\<not> Comparer r l" .
    have "\<not> Comparer r x" if "x \<in> set (merged Comparer (l # ls) rs)" for x
    proof -
      from that have "x = l \<or> x \<in> set ls \<or> x \<in> set rs" by (auto simp: set_merged)
      then show ?thesis
      proof (elim disjE)
        assume "x = l" with rl show ?thesis by simp
      next
        assume "x \<in> set ls"
        with "3.prems"(2) have "\<not> Comparer l x" by simp
        from swo_negtrans [OF "3.prems"(1) rl this] show ?thesis .
      next
        assume "x \<in> set rs" with "3.prems"(3) show ?thesis by simp
      qed
    qed
    with True "3.IH"(2) "3.prems" show ?thesis by simp
  qed
qed

lemma Array_copy_out:
  "start + k \<le> length c \<Longrightarrow>
     copy_out Array_indexable start k c = (Inr (take k (drop start c)), c)"
proof (induction k arbitrary: start)
  case 0
  then show ?case by (simp add: ret_def)
next
  case (Suc k)
  then have s: "start < length c" "Suc start + k \<le> length c" by simp_all
  from Suc.IH [OF s(2)] s(1) show ?case
    by (simp add: Array_element seq_def ret_def take_Suc_conv_app_nth Cons_nth_drop_Suc [symmetric])
qed

lemma Array_assign_append:
  "length xs = m \<Longrightarrow> assign Array_indexable m v (xs @ w # ws) = (Inr (), (xs @ [v]) @ ws)"
  using list_update_length [of xs w ws v] by (auto simp: Array_assign)

lemma Array_Merge_right:
  assumes "length xs = m" and "length ws = length RightArr - End"
  shows "Merge_right Array_indexable RightArr End m (xs @ ws @ zs) =
     (Inr (), xs @ drop End RightArr @ zs)"
  using assms
proof (induction "length RightArr - End" arbitrary: End m xs ws rule: less_induct)
  case less
  note unfold = Merge_right.simps [of Array_indexable RightArr End m "xs @ ws @ zs"]
  show ?case
  proof (cases "End < length RightArr")
    case False
    with less.prems unfold show ?thesis by (simp add: ret_def)
  next
    case True
    with less.prems obtain w ws' where ws: "ws = w # ws'"
      by (cases ws) auto
    from True have m: "length RightArr - Suc End < length RightArr - End" by simp
    from less.prems ws True have p: "length (xs @ [RightArr ! End]) = Suc m"
        "length ws' = length RightArr - Suc End"
      by simp_all
    have a: "assign Array_indexable m (RightArr ! End) (xs @ ws @ zs) =
        (Inr (), (xs @ [RightArr ! End]) @ ws' @ zs)"
      using Array_assign_append [OF less.prems(1), of "RightArr ! End" w "ws' @ zs"] ws by simp
    from less.hyps [OF m p] True a unfold show ?thesis
      by (simp add: seq_def Cons_nth_drop_Suc)
  qed
qed

lemma Array_Merge_left:
  assumes "length xs = m"
    and "length ws = (length LeftArr - Begin) + (length RightArr - End)"
  shows "Merge_left Array_indexable LeftArr RightArr Begin End m (xs @ ws @ zs) =
     (Inr (), xs @ drop Begin LeftArr @ drop End RightArr @ zs)"
  using assms
proof (induction "length LeftArr - Begin" arbitrary: Begin m xs ws rule: less_induct)
  case less
  note unfold = Merge_left.simps [of Array_indexable LeftArr RightArr Begin End m "xs @ ws @ zs"]
  show ?case
  proof (cases "Begin < length LeftArr")
    case False
    with less.prems unfold Array_Merge_right [of xs m ws RightArr End zs] show ?thesis
      by simp
  next
    case True
    with less.prems obtain w ws' where ws: "ws = w # ws'"
      by (cases ws) auto
    from True have m: "length LeftArr - Suc Begin < length LeftArr - Begin" by simp
    from less.prems ws True have p: "length (xs @ [LeftArr ! Begin]) = Suc m"
        "length ws' = (length LeftArr - Suc Begin) + (length RightArr - End)"
      by simp_all
    have a: "assign Array_indexable m (LeftArr ! Begin) (xs @ ws @ zs) =
        (Inr (), (xs @ [LeftArr ! Begin]) @ ws' @ zs)"
      using Array_assign_append [OF less.prems(1), of "LeftArr ! Begin" w "ws' @ zs"] ws by simp
    from less.hyps [OF m p] True a unfold show ?thesis
      by (simp add: seq_def Cons_nth_drop_Suc)
  qed
qed

lemma Array_Merge_both:
  assumes "length xs = m"
    and "length ws = (length LeftArr - Begin) + (length RightArr - End)"
  shows "Merge_both Array_indexable Comparer LeftArr RightArr Begin End m (xs @ ws @ zs) =
     (Inr (), xs @ merged Comparer (drop Begin LeftArr) (drop End RightArr) @ zs)"
  using assms
proof (induction "(length LeftArr - Begin) + (length RightArr - End)"
    arbitrary: Begin End m xs ws rule: less_induct)
  case less
  note unfold = Merge_both.simps
    [of Array_indexable Comparer LeftArr RightArr Begin End m "xs @ ws @ zs"]
  show ?case
  proof (cases "Begin < length LeftArr \<and> End < length RightArr")
    case False
    then have "drop Begin LeftArr = [] \<or> drop End RightArr = []" by auto
    then have "merged Comparer (drop Begin LeftArr) (drop End RightArr) =
        drop Begin LeftArr @ drop End RightArr"
      by auto
    with False unfold Array_Merge_left [OF less.prems, of zs] show ?thesis
      by auto
  next
    case True
    with less.prems obtain w ws' where ws: "ws = w # ws'"
      by (cases ws) auto
    from True have dl: "drop Begin LeftArr = LeftArr ! Begin # drop (Suc Begin) LeftArr"
      and dr: "drop End RightArr = RightArr ! End # drop (Suc End) RightArr"
      by (simp_all add: Cons_nth_drop_Suc)
    show ?thesis
    proof (cases "Comparer (LeftArr ! Begin) (RightArr ! End)")
      case False
      from True have m: "(length LeftArr - Suc Begin) + (length RightArr - End)
          < (length LeftArr - Begin) + (length RightArr - End)" by linarith
      from less.prems ws True have p: "length (xs @ [LeftArr ! Begin]) = Suc m"
        "length ws' = (length LeftArr - Suc Begin) + (length RightArr - End)"
        by simp_all
      have a: "assign Array_indexable m (LeftArr ! Begin) (xs @ ws @ zs) =
          (Inr (), (xs @ [LeftArr ! Begin]) @ ws' @ zs)"
        using Array_assign_append [OF less.prems(1), of "LeftArr ! Begin" w "ws' @ zs"] ws by simp
      from less.hyps [OF m p] have
        "Merge_both Array_indexable Comparer LeftArr RightArr (Suc Begin) End (Suc m)
           ((xs @ [LeftArr ! Begin]) @ ws' @ zs) =
         (Inr (), (xs @ [LeftArr ! Begin]) @
            merged Comparer (drop (Suc Begin) LeftArr) (drop End RightArr) @ zs)" .
      with True False a unfold show ?thesis
        by (simp add: seq_def dl dr [symmetric]) (simp add: dr)
    next
      case gt: True
      from True have m: "(length LeftArr - Begin) + (length RightArr - Suc End)
          < (length LeftArr - Begin) + (length RightArr - End)" by linarith
      from less.prems ws True have p: "length (xs @ [RightArr ! End]) = Suc m"
        "length ws' = (length LeftArr - Begin) + (length RightArr - Suc End)"
        by simp_all
      have a: "assign Array_indexable m (RightArr ! End) (xs @ ws @ zs) =
          (Inr (), (xs @ [RightArr ! End]) @ ws' @ zs)"
        using Array_assign_append [OF less.prems(1), of "RightArr ! End" w "ws' @ zs"] ws by simp
      from less.hyps [OF m p] have
        "Merge_both Array_indexable Comparer LeftArr RightArr Begin (Suc End) (Suc m)
           ((xs @ [RightArr ! End]) @ ws' @ zs) =
         (Inr (), (xs @ [RightArr ! End]) @
            merged Comparer (drop Begin LeftArr) (drop (Suc End) RightArr) @ zs)" .
      with True gt a unfold show ?thesis
        by (simp add: seq_def dr dl [symmetric]) (simp add: dl)
    qed
  qed
qed


lemma Array_Merge:
  assumes xs: "length xs = Begin" and le: "Begin \<le> Middle"
    and ls: "length ls = Middle - Begin + 1" and rs: "length rs = End - Middle"
  shows "Merge Array_indexable Begin Middle End Comparer (xs @ ls @ rs @ zs) =
     (Inr (), xs @ merged Comparer ls rs @ zs)"
proof -
  let ?c = "xs @ ls @ rs @ zs"
  from xs ls have l: "copy_out Array_indexable Begin (Middle - Begin + 1) ?c = (Inr ls, ?c)"
    by (subst Array_copy_out) simp_all
  from xs ls le have m: "length (xs @ ls) = Middle + 1" by simp
  have "take (End - Middle) (drop (Middle + 1) ((xs @ ls) @ rs @ zs)) = rs"
    unfolding m [symmetric] using rs by simp
  moreover from m rs have "Middle + 1 + (End - Middle) \<le> length ?c" by simp
  ultimately have r: "copy_out Array_indexable (Middle + 1) (End - Middle) ?c = (Inr rs, ?c)"
    by (subst Array_copy_out) simp_all
  from ls rs have w: "length (ls @ rs) = (length ls - 0) + (length rs - 0)" by simp
  from Array_Merge_both [OF xs w, of Comparer zs] l r show ?thesis
    by (simp add: Merge_def seq_def)
qed

lemma Array_RecursiveMergeSort:
  assumes swo: "strict_weak_order Comparer"
    and "length xs = Begin" and "Begin \<le> End" and "length ys = Suc End - Begin"
  shows "\<exists>ys'. RecursiveMergeSort Array_indexable Begin End Comparer (xs @ ys @ zs) =
            (Inr (), xs @ ys' @ zs) \<and>
          mset ys' = mset ys \<and> sorted_wrt (\<lambda>a b. \<not> Comparer a b) ys'"
  using assms(2-)
proof (induction "End - Begin" arbitrary: Begin End xs ys zs rule: less_induct)
  case less
  note unfold = RecursiveMergeSort.simps [of Array_indexable Begin End Comparer "xs @ ys @ zs"]
  show ?case
  proof (cases "Begin = End")
    case True
    with less.prems obtain y where "ys = [y]"
      by (cases ys) auto
    with True unfold show ?thesis
      by (simp add: ret_def)
  next
    case False
    with less.prems have lt: "Begin < End" by simp
    define Middle where "Middle = (Begin + End) div 2"
    from lt have mid: "Begin \<le> Middle" "Middle < End"
      by (simp_all add: Middle_def)
    define ys1 where "ys1 = take (Suc Middle - Begin) ys"
    define ys2 where "ys2 = drop (Suc Middle - Begin) ys"
    have ys: "ys = ys1 @ ys2" by (simp add: ys1_def ys2_def)
    from less.prems mid have l1: "length ys1 = Suc Middle - Begin"
      and l2: "length ys2 = Suc End - Suc Middle"
      by (simp_all add: ys1_def ys2_def)
    from mid lt have m1: "Middle - Begin < End - Begin" by simp
    from less.hyps [OF m1 less.prems(1) mid(1) l1, of "ys2 @ zs"] obtain ys1' where
      r1: "RecursiveMergeSort Array_indexable Begin Middle Comparer (xs @ ys1 @ ys2 @ zs) =
             (Inr (), xs @ ys1' @ ys2 @ zs)"
      and p1: "mset ys1' = mset ys1" and s1: "sorted_wrt (\<lambda>a b. \<not> Comparer a b) ys1'"
      by blast
    from p1 l1 have l1': "length ys1' = Suc Middle - Begin"
      using mset_eq_length by fastforce
    from mid lt have m2: "End - Suc Middle < End - Begin" by simp
    from less.prems(1) l1' mid have x2: "length (xs @ ys1') = Suc Middle" by simp
    from mid have le2: "Suc Middle \<le> End" by simp
    from less.hyps [OF m2 x2 le2 l2, of zs] obtain ys2' where
      r2: "RecursiveMergeSort Array_indexable (Suc Middle) End Comparer (xs @ ys1' @ ys2 @ zs) =
             (Inr (), xs @ ys1' @ ys2' @ zs)"
      and p2: "mset ys2' = mset ys2" and s2: "sorted_wrt (\<lambda>a b. \<not> Comparer a b) ys2'"
      by auto
    from p2 l2 have l2': "length ys2' = Suc End - Suc Middle"
      using mset_eq_length by fastforce
    from l1' mid have a1: "length ys1' = Middle - Begin + 1" by simp
    from l2' mid have a2: "length ys2' = End - Middle" by simp
    note mg = Array_Merge [OF less.prems(1) mid(1) a1 a2, of Comparer zs]
    have run: "RecursiveMergeSort Array_indexable Begin End Comparer (xs @ ys @ zs) =
        (Inr (), xs @ merged Comparer ys1' ys2' @ zs)"
      using unfold lt r1 r2 mg
      by (simp add: Middle_def [symmetric] ys seq_def Let_def)
    show ?thesis
    proof (intro exI conjI)
      show "RecursiveMergeSort Array_indexable Begin End Comparer (xs @ ys @ zs) =
          (Inr (), xs @ merged Comparer ys1' ys2' @ zs)"
        by (rule run)
      show "mset (merged Comparer ys1' ys2') = mset ys"
        by (simp add: mset_merged p1 p2 ys)
      show "sorted_wrt (\<lambda>a b. \<not> Comparer a b) (merged Comparer ys1' ys2')"
        by (rule sorted_merged [OF swo s1 s2])
    qed
  qed
qed

lemma in_order_sorted_wrt:
  assumes swo: "strict_weak_order Comparer" and n: "n \<le> length c"
  shows "in_order Comparer n c \<longleftrightarrow> sorted_wrt (\<lambda>a b. \<not> Comparer a b) (take n c)"
proof -
  have tr: "transp (\<lambda>a b. \<not> Comparer a b)"
    using swo_negtrans [OF swo] by (auto simp: transp_def)
  from n show ?thesis
    by (simp add: sorted_wrt_iff_nth_Suc_transp [OF tr] in_order_def)
qed

lemma Array_MergeSort:
  assumes swo: "strict_weak_order Comparer" and n1: "1 \<le> n" and n: "n \<le> length c"
  shows "\<exists>c'. MergeSort Array_indexable n Comparer c = (Inr (), c') \<and> length c' = length c \<and>
           mset c' = mset c \<and> (\<forall>i. n \<le> i \<longrightarrow> c' ! i = c ! i) \<and> in_order Comparer n c'"
proof -
  from n1 n have l: "length (take n c) = Suc (n - 1) - 0" by simp
  from Array_RecursiveMergeSort [OF swo _ _ l, of "[]" "drop n c"] obtain ys' where
    run: "RecursiveMergeSort Array_indexable 0 (n - 1) Comparer c = (Inr (), ys' @ drop n c)"
    and p: "mset ys' = mset (take n c)" and s: "sorted_wrt (\<lambda>a b. \<not> Comparer a b) ys'"
    by auto
  from p n have ly: "length ys' = n"
    using mset_eq_length by fastforce
  show ?thesis
  proof (intro exI conjI allI impI)
    from run n1 show "MergeSort Array_indexable n Comparer c = (Inr (), ys' @ drop n c)"
      by (simp add: MergeSort_def)
    from ly n show "length (ys' @ drop n c) = length c" by simp
    have "mset (ys' @ drop n c) = mset (take n c @ drop n c)"
      unfolding mset_append p ..
    then show "mset (ys' @ drop n c) = mset c"
      by (simp only: append_take_drop_id)
    show "(ys' @ drop n c) ! i = c ! i" if "n \<le> i" for i
      using that ly n by (simp add: nth_append)
    from ly n have "n \<le> length (ys' @ drop n c)" by simp
    from in_order_sorted_wrt [OF swo this] ly s show "in_order Comparer n (ys' @ drop n c)"
      by simp
  qed
qed

subsection \<open>QuickSort on arrays\<close>

lemma Array_exchange_append:
  "exchange Array_indexable (length A) (length (A @ g # B)) (A @ g # B @ a # C) =
     (Inr (), A @ a # B @ g # C)"
proof -
  let ?c = "A @ g # B @ a # C"
  have i: "length A < length ?c" by simp
  have j: "length (A @ g # B) < length ?c" by simp
  have ci: "?c ! length A = g" by simp
  have cj: "?c ! length (A @ g # B) = a"
    using nth_append_length [of "A @ g # B" a C] by simp
  have u1: "?c[length A := a] = A @ a # B @ a # C" by simp
  have u2: "(A @ a # B @ a # C)[length (A @ g # B) := g] = A @ a # B @ g # C"
    using list_update_length [of "A @ a # B" a C g] by simp
  show ?thesis
    by (simp only: Array_exchange [OF i j] ci cj u1 u2)
qed

lemma Array_Partition_loop:
  fixes p :: "'a::linorder"
  assumes xs: "length xs = Low"
  shows "PivotIndex = Low + length ls \<Longrightarrow> Index = PivotIndex + length gs \<Longrightarrow>
     High = Index + length us \<Longrightarrow> (\<forall>x\<in>set ls. x \<le> p) \<Longrightarrow> (\<forall>x\<in>set gs. p < x) \<Longrightarrow>
     \<exists>ls' gs'. Partition_loop Array_indexable High High GreaterThan Index PivotIndex
                 (xs @ ls @ gs @ us @ p # zs) =
               (Inr (Low + length ls'), xs @ ls' @ gs' @ p # zs) \<and>
             mset (ls' @ gs') = mset (ls @ gs @ us) \<and>
             (\<forall>x\<in>set ls'. x \<le> p) \<and> (\<forall>x\<in>set gs'. p < x)"
proof (induction us arbitrary: ls gs Index PivotIndex)
  case Nil
  note unfold = Partition_loop.simps
    [of Array_indexable High High GreaterThan Index PivotIndex "xs @ ls @ gs @ [] @ p # zs"]
  from Nil.prems have "\<not> Index < High" by simp
  with unfold Nil.prems(1) have
    "Partition_loop Array_indexable High High GreaterThan Index PivotIndex
       (xs @ ls @ gs @ [] @ p # zs) = (Inr (Low + length ls), xs @ ls @ gs @ p # zs)"
    by (simp add: ret_def)
  with Nil.prems(4,5) show ?case
    by (intro exI [of _ ls] exI [of _ gs]) simp
next
  case (Cons a us)
  let ?c = "xs @ ls @ gs @ a # us @ p # zs"
  note unfold = Partition_loop.simps
    [of Array_indexable High High GreaterThan Index PivotIndex ?c]
  from Cons.prems xs have I: "Index = length (xs @ ls @ gs)" by simp
  from Cons.prems xs have H: "High = length (xs @ ls @ gs @ a # us)" by simp
  from Cons.prems have lt: "Index < High" by simp
  from H have Hl: "High < length ?c" by simp
  from I have Il: "Index < length ?c" by simp
  have cI: "?c ! Index = a"
    unfolding I using nth_append_length [of "xs @ ls @ gs" a "us @ p # zs"] by simp
  have cH: "?c ! High = p"
    unfolding H using nth_append_length [of "xs @ ls @ gs @ a # us" p zs] by simp
  from Il have at: "at Array_indexable ?c Index = Inr Index" by simp
  from Il cI have fI: "fetch Array_indexable ?c Index = Inr a" by simp
  from Hl cH have fH: "fetch Array_indexable ?c High = Inr p" by simp
  have step: "Partition_loop Array_indexable High High GreaterThan Index PivotIndex ?c =
      (if a \<le> p then
         seq (exchange Array_indexable PivotIndex Index)
           (\<lambda>_ s. Partition_loop Array_indexable High High GreaterThan (Suc Index)
              (Suc PivotIndex) s) ?c
       else Partition_loop Array_indexable High High GreaterThan (Suc Index) PivotIndex ?c)"
    unfolding unfold using lt by (simp add: seq_def rd_def at fI fH GreaterThan_def not_less)
  have goal_eq: "xs @ ls @ gs @ (a # us) @ p # zs = ?c" by simp
  show ?case
  proof (cases "a \<le> p")
    case False
    from Cons.prems(2) have p2: "Suc Index = PivotIndex + length (gs @ [a])" by simp
    from Cons.prems(3) have p3: "High = Suc Index + length us" by simp
    from Cons.prems(5) False have p5: "\<forall>x\<in>set (gs @ [a]). p < x" by auto
    from Cons.IH [OF Cons.prems(1) p2 p3 Cons.prems(4) p5] obtain ls' gs' where
      r: "Partition_loop Array_indexable High High GreaterThan (Suc Index) PivotIndex
            (xs @ ls @ (gs @ [a]) @ us @ p # zs) =
          (Inr (Low + length ls'), xs @ ls' @ gs' @ p # zs)"
      and m: "mset (ls' @ gs') = mset (ls @ (gs @ [a]) @ us)"
      and b: "\<forall>x\<in>set ls'. x \<le> p" "\<forall>x\<in>set gs'. p < x"
      by blast
    have e: "xs @ ls @ (gs @ [a]) @ us @ p # zs = ?c" by simp
    show ?thesis
    proof (intro exI conjI)
      show "Partition_loop Array_indexable High High GreaterThan Index PivotIndex
          (xs @ ls @ gs @ (a # us) @ p # zs) = (Inr (Low + length ls'), xs @ ls' @ gs' @ p # zs)"
        unfolding goal_eq step using False r [unfolded e] by simp
      show "mset (ls' @ gs') = mset (ls @ gs @ a # us)" using m by simp
    qed (use b in auto)
  next
    case True
    from Cons.prems(1) have p1: "Suc PivotIndex = Low + length (ls @ [a])" by simp
    from Cons.prems(4) True have p4: "\<forall>x\<in>set (ls @ [a]). x \<le> p" by auto
    from Cons.prems(3) have p3: "High = Suc Index + length us" by simp
    show ?thesis
    proof (cases gs)
      case Nil
      with Cons.prems(2) have same: "PivotIndex = Index" by simp
      from Il have ex: "exchange Array_indexable Index Index ?c = (Inr (), ?c)"
        by (simp add: Array_exchange)
      from same have p2: "Suc Index = Suc PivotIndex + length ([] :: 'a list)" by simp
      have p5: "\<forall>x\<in>set ([] :: 'a list). p < x" by simp
      from Cons.IH [OF p1 p2 p3 p4 p5] obtain ls' gs' where
        r: "Partition_loop Array_indexable High High GreaterThan (Suc Index) (Suc PivotIndex)
              (xs @ (ls @ [a]) @ [] @ us @ p # zs) =
            (Inr (Low + length ls'), xs @ ls' @ gs' @ p # zs)"
        and m: "mset (ls' @ gs') = mset ((ls @ [a]) @ [] @ us)"
        and b: "\<forall>x\<in>set ls'. x \<le> p" "\<forall>x\<in>set gs'. p < x"
        by blast
      have e: "xs @ (ls @ [a]) @ [] @ us @ p # zs = ?c" using Nil by simp
      show ?thesis
      proof (intro exI conjI)
        show "Partition_loop Array_indexable High High GreaterThan Index PivotIndex
            (xs @ ls @ gs @ (a # us) @ p # zs) =
            (Inr (Low + length ls'), xs @ ls' @ gs' @ p # zs)"
          unfolding goal_eq step using True r [unfolded e] ex same by (simp add: seq_def)
        show "mset (ls' @ gs') = mset (ls @ gs @ a # us)" using m Nil by simp
      qed (use b in auto)
    next
      case (Cons g gs2)
      from Cons.prems(1) xs have P: "PivotIndex = length (xs @ ls)" by simp
      from I Cons have I2: "Index = length ((xs @ ls) @ g # gs2)" by simp
      have c: "?c = (xs @ ls) @ g # gs2 @ a # us @ p # zs" using Cons by simp
      have ex: "exchange Array_indexable PivotIndex Index ?c =
          (Inr (), (xs @ ls) @ a # gs2 @ g # us @ p # zs)"
        unfolding P I2 c by (rule Array_exchange_append)
      from Cons.prems(2) Cons have p2: "Suc Index = Suc PivotIndex + length (gs2 @ [g])" by simp
      from Cons.prems(5) Cons have p5: "\<forall>x\<in>set (gs2 @ [g]). p < x" by auto
      from Cons.IH [OF p1 p2 p3 p4 p5] obtain ls' gs' where
        r: "Partition_loop Array_indexable High High GreaterThan (Suc Index) (Suc PivotIndex)
              (xs @ (ls @ [a]) @ (gs2 @ [g]) @ us @ p # zs) =
            (Inr (Low + length ls'), xs @ ls' @ gs' @ p # zs)"
        and m: "mset (ls' @ gs') = mset ((ls @ [a]) @ (gs2 @ [g]) @ us)"
        and b: "\<forall>x\<in>set ls'. x \<le> p" "\<forall>x\<in>set gs'. p < x"
        by blast
      have e: "xs @ (ls @ [a]) @ (gs2 @ [g]) @ us @ p # zs =
          (xs @ ls) @ a # gs2 @ g # us @ p # zs" by simp
      show ?thesis
      proof (intro exI conjI)
        show "Partition_loop Array_indexable High High GreaterThan Index PivotIndex
            (xs @ ls @ gs @ (a # us) @ p # zs) =
            (Inr (Low + length ls'), xs @ ls' @ gs' @ p # zs)"
          unfolding goal_eq step using True r [unfolded e] ex by (simp add: seq_def)
        show "mset (ls' @ gs') = mset (ls @ gs @ a # us)" using m Cons by simp
      qed (use b in auto)
    qed
  qed
qed


lemma Array_Partition:
  fixes p :: "'a::linorder"
  assumes xs: "length xs = Low" and us: "High = Low + length us"
  shows "\<exists>ls gs. Partition Array_indexable Low High High GreaterThan (xs @ us @ p # zs) =
             (Inr (Low + length ls), xs @ ls @ p # gs @ zs) \<and>
           mset (ls @ gs) = mset us \<and> (\<forall>x\<in>set ls. x \<le> p) \<and> (\<forall>x\<in>set gs. p < x)"
proof -
  have p1: "Low = Low + length ([] :: 'a list)" by simp
  from us have p3: "High = Low + length us" .
  have p4: "\<forall>x\<in>set ([] :: 'a list). x \<le> p" and p5: "\<forall>x\<in>set ([] :: 'a list). p < x"
    by simp_all
  from Array_Partition_loop [OF xs p1 p1 p3 p4 p5, of zs] obtain ls gs where
    r: "Partition_loop Array_indexable High High GreaterThan Low Low (xs @ us @ p # zs) =
          (Inr (Low + length ls), xs @ ls @ gs @ p # zs)"
    and m: "mset (ls @ gs) = mset us"
    and b: "\<forall>x\<in>set ls. x \<le> p" "\<forall>x\<in>set gs. p < x"
    by auto
  from m have "length (ls @ gs) = length us"
    by (rule mset_eq_length)
  with us have H: "High = Low + length ls + length gs" by simp
  show ?thesis
  proof (cases gs)
    case Nil
    with H xs have "Low + length ls < length (xs @ ls @ gs @ p # zs)" by simp
    then have "exchange Array_indexable (Low + length ls) (Low + length ls)
        (xs @ ls @ gs @ p # zs) = (Inr (), xs @ ls @ gs @ p # zs)"
      by (simp add: Array_exchange)
    with Nil H r have
      "Partition Array_indexable Low High High GreaterThan (xs @ us @ p # zs) =
         (Inr (Low + length ls), xs @ ls @ p # [] @ zs)"
      by (simp add: Partition_def seq_def ret_def)
    with m b Nil show ?thesis
      by (intro exI [of _ ls] exI [of _ "[]"]) simp
  next
    case (Cons g gs2)
    from xs have P: "Low + length ls = length (xs @ ls)" by simp
    from H xs Cons have H2: "High = length ((xs @ ls) @ g # gs2)" by simp
    have c: "xs @ ls @ gs @ p # zs = (xs @ ls) @ g # gs2 @ p # zs" using Cons by simp
    have ex: "exchange Array_indexable (Low + length ls) High (xs @ ls @ gs @ p # zs) =
        (Inr (), (xs @ ls) @ p # gs2 @ g # zs)"
      unfolding P H2 c by (rule Array_exchange_append)
    with r have
      "Partition Array_indexable Low High High GreaterThan (xs @ us @ p # zs) =
         (Inr (Low + length ls), xs @ ls @ p # (gs2 @ [g]) @ zs)"
      by (simp add: Partition_def seq_def ret_def)
    moreover from m Cons have "mset (ls @ gs2 @ [g]) = mset us" by simp
    moreover from b Cons have "\<forall>x\<in>set (gs2 @ [g]). p < x" by auto
    ultimately show ?thesis
      using b(1) by (intro exI [of _ ls] exI [of _ "gs2 @ [g]"]) simp
  qed
qed

lemma Array_RecursiveQuickSort:
  fixes ys :: "'a::linorder list"
  assumes "length xs = Low" and "length ys = Suc High - Low"
  shows "\<exists>ys'. RecursiveQuickSort Array_indexable Low High Comparer (xs @ ys @ zs) =
            (Inr (), xs @ ys' @ zs) \<and>
          mset ys' = mset ys \<and> sorted ys'"
  using assms
proof (induction "High - Low" arbitrary: Low High xs ys zs rule: less_induct)
  case less
  note unfold = RecursiveQuickSort.simps [of Array_indexable Low High Comparer "xs @ ys @ zs"]
  show ?case
  proof (cases "Low < High")
    case False
    with less.prems have "length ys \<le> 1" by simp
    then have "sorted ys"
      by (cases ys) (simp_all add: le_Suc_eq)
    with False unfold show ?thesis
      by (simp add: ret_def)
  next
    case True
    with less.prems have ne: "ys \<noteq> []" by auto
    define us where "us = butlast ys"
    define p where "p = last ys"
    from ne have ys: "ys = us @ [p]" by (simp add: us_def p_def)
    from less.prems True have H: "High = Low + length us" by (simp add: us_def)
    have c: "xs @ ys @ zs = xs @ us @ p # zs" by (simp add: ys)
    from H less.prems(1) have "High < length (xs @ us @ p # zs)" by simp
    then have at: "at Array_indexable (xs @ us @ p # zs) High = Inr High" by simp
    from Array_Partition [OF less.prems(1) H, of p zs] obtain ls gs where
      part: "Partition Array_indexable Low High High GreaterThan (xs @ us @ p # zs) =
               (Inr (Low + length ls), xs @ ls @ p # gs @ zs)"
      and m: "mset (ls @ gs) = mset us"
      and b: "\<forall>x\<in>set ls. x \<le> p" "\<forall>x\<in>set gs. p < x"
      by blast
    from m have "length (ls @ gs) = length us" by (rule mset_eq_length)
    with H have H2: "High = Low + length ls + length gs" by simp
    define k where "k = Low + length ls"
    have first: "\<exists>ls'. (if k > 0
          then (\<lambda>s. RecursiveQuickSort Array_indexable Low (k - 1) Comparer s)
          else ret ()) (xs @ ls @ p # gs @ zs) = (Inr (), xs @ ls' @ p # gs @ zs) \<and>
        mset ls' = mset ls \<and> sorted ls'"
    proof (cases "k > 0")
      case False
      then have "ls = []" by (simp add: k_def)
      with False show ?thesis by (simp add: ret_def)
    next
      case pos: True
      from pos have l: "length ls = Suc (k - 1) - Low" by (simp add: k_def)
      from H2 have "k \<le> High" by (simp add: k_def)
      with True pos have d: "(k - 1) - Low < High - Low" by linarith
      from less.hyps [OF d less.prems(1) l, of "p # gs @ zs"] pos show ?thesis
        by simp
    qed
    then obtain ls' where
      r1: "(if k > 0 then (\<lambda>s. RecursiveQuickSort Array_indexable Low (k - 1) Comparer s)
            else ret ()) (xs @ ls @ p # gs @ zs) = (Inr (), xs @ ls' @ p # gs @ zs)"
      and m1: "mset ls' = mset ls" and s1: "sorted ls'"
      by blast
    from m1 have "length ls' = length ls" by (rule mset_eq_length)
    with less.prems(1) have x2: "length (xs @ ls' @ [p]) = k + 1" by (simp add: k_def)
    from H2 have l2: "length gs = Suc High - (k + 1)" by (simp add: k_def)
    have "Low \<le> k" by (simp add: k_def)
    with True have d2: "High - (k + 1) < High - Low" by linarith
    from less.hyps [OF d2 x2 l2, of zs] obtain gs' where
      r2: "RecursiveQuickSort Array_indexable (k + 1) High Comparer
             ((xs @ ls' @ [p]) @ gs @ zs) = (Inr (), (xs @ ls' @ [p]) @ gs' @ zs)"
      and m2: "mset gs' = mset gs" and s2: "sorted gs'"
      by blast
    have e1: "(xs @ ls' @ [p]) @ gs @ zs = xs @ ls' @ p # gs @ zs" by simp
    have run: "RecursiveQuickSort Array_indexable Low High Comparer (xs @ ys @ zs) =
        (Inr (), xs @ (ls' @ p # gs') @ zs)"
      unfolding c
      using unfold [unfolded c] True at part r1 r2 [unfolded e1]
      by (simp add: seq_def rd_def k_def [symmetric])
    from m1 m2 have sets: "set ls' = set ls" "set gs' = set gs"
      by (auto dest: mset_eq_setD)
    show ?thesis
    proof (intro exI conjI)
      show "RecursiveQuickSort Array_indexable Low High Comparer (xs @ ys @ zs) =
          (Inr (), xs @ (ls' @ p # gs') @ zs)"
        by (rule run)
      show "mset (ls' @ p # gs') = mset ys"
        using m m1 m2 by (simp add: ys)
      show "sorted (ls' @ p # gs')"
        using s1 s2 b sets by (fastforce simp: sorted_append)
    qed
  qed
qed

lemma sorted_wrt_GreaterThan:
  "sorted_wrt (\<lambda>a b. \<not> GreaterThan a b) (xs :: 'a::linorder list) \<longleftrightarrow> sorted xs"
  by (simp add: GreaterThan_def not_less)

lemma Array_QuickSort:
  fixes c :: "'a::linorder list"
  assumes n1: "1 \<le> n" and n: "n \<le> length c"
  shows "\<exists>c'. QuickSort Array_indexable n Comparer c = (Inr (), c') \<and> length c' = length c \<and>
           mset c' = mset c \<and> (\<forall>i. n \<le> i \<longrightarrow> c' ! i = c ! i) \<and> in_order GreaterThan n c'"
proof -
  from n1 n have l: "length (take n c) = Suc (n - 1) - 0" by simp
  have x: "length ([] :: 'a list) = 0" by simp
  from Array_RecursiveQuickSort [OF x l, of Comparer "drop n c"] obtain ys' where
    run: "RecursiveQuickSort Array_indexable 0 (n - 1) Comparer c = (Inr (), ys' @ drop n c)"
    and p: "mset ys' = mset (take n c)" and s: "sorted ys'"
    by auto
  from p n have ly: "length ys' = n"
    using mset_eq_length by fastforce
  show ?thesis
  proof (intro exI conjI allI impI)
    from run n1 show "QuickSort Array_indexable n Comparer c = (Inr (), ys' @ drop n c)"
      by (simp add: QuickSort_def)
    from ly n show "length (ys' @ drop n c) = length c" by simp
    have "mset (ys' @ drop n c) = mset (take n c @ drop n c)"
      unfolding mset_append p ..
    then show "mset (ys' @ drop n c) = mset c"
      by (simp only: append_take_drop_id)
    show "(ys' @ drop n c) ! i = c ! i" if "n \<le> i" for i
      using that ly n by (simp add: nth_append)
    from ly n have "n \<le> length (ys' @ drop n c)" by simp
    from in_order_sorted_wrt [OF swo_GreaterThan this] ly s
    show "in_order GreaterThan n (ys' @ drop n c)"
      by (simp add: sorted_wrt_GreaterThan)
  qed
qed

text \<open>
  Two arrays of one length that hold the same elements, agree from position \<open>n\<close> on
  and are both in order up to \<open>n\<close> for the default comparer are the same array.
\<close>

lemma in_order_unique:
  fixes c1 :: "'a::linorder list"
  assumes "length c1 = length c2" and "mset c1 = mset c2" and n: "n \<le> length c1"
    and fr: "\<And>i. n \<le> i \<Longrightarrow> i < length c1 \<Longrightarrow> c1 ! i = c2 ! i"
    and o1: "in_order GreaterThan n c1" and o2: "in_order GreaterThan n c2"
  shows "c1 = c2"
proof -
  from assms(1) fr have d: "drop n c1 = drop n c2"
    by (intro nth_equalityI) simp_all
  have "mset (take n c1) + mset (drop n c1) = mset (take n c2) + mset (drop n c2)"
    by (simp only: mset_append [symmetric] append_take_drop_id assms(2))
  with d have m: "mset (take n c1) = mset (take n c2)" by simp
  from o1 n have s1: "sorted (take n c1)"
    by (simp add: in_order_sorted_wrt [OF swo_GreaterThan] sorted_wrt_GreaterThan)
  from o2 n assms(1) have s2: "sorted (take n c2)"
    by (simp add: in_order_sorted_wrt [OF swo_GreaterThan] sorted_wrt_GreaterThan)
  from m s1 s2 have "take n c1 = take n c2"
    by (metis sorted_sort_id properties_for_sort)
  with d have "take n c1 @ drop n c1 = take n c2 @ drop n c2" by simp
  then show ?thesis by (simp only: append_take_drop_id)
qed

section \<open>Out-of-range and empty-list access\<close>

lemma lsize_List_of_3: "lsize (List_of [10, 20, 30 :: int]) = 3"
  by code_simp

lemma lsize_List_empty: "lsize (List_empty :: 'a LinkedList) = 0"
  by (simp add: List_empty_def)

text \<open>
  Claim C7. \<open>Get\<close>, \<^verbatim>\<open>operator[]\<close>, \<open>Erase\<close> and \<open>Swap\<close> with an index
  \<open>i \<ge> size\<close>, \<open>Insert\<close> with an index \<open>k > size\<close>, and \<open>Front\<close>, \<open>Back\<close>,
  \<open>PopFront\<close>, \<open>PopBack\<close> on a list of size 0 throw the out-of-bounds error with the
  index they were given and the size, and leave the list as it was. \<open>Swap\<close> reports
  its left index when that one is invalid, otherwise its right index. On the empty
  list \<open>Back\<close> and \<open>PopBack\<close> pass the index \<^verbatim>\<open>size - 1\<close>, which has wrapped to
  \<open>SIZE_MAX\<close>.
\<close>

theorem out_of_range_raises:
  "(lsize L \<le> i \<longrightarrow>
      Get L i = Inl (OutOfBounds i (lsize L)) \<and>
      subscript L i = Inl (OutOfBounds i (lsize L)) \<and>
      Erase i L = (Inl (OutOfBounds i (lsize L)), L) \<and>
      Swap i j L = (Inl (OutOfBounds i (lsize L)), L) \<and>
      (j < lsize L \<longrightarrow> Swap j i L = (Inl (OutOfBounds i (lsize L)), L))) \<and>
   (lsize L < k \<longrightarrow> Insert k v L = (Inl (OutOfBounds k (lsize L)), L)) \<and>
   (lsize E = 0 \<longrightarrow>
      Front E = Inl (OutOfBounds 0 0) \<and>
      Back E = Inl (OutOfBounds SIZE_MAX 0) \<and>
      PopFront E = (Inl (OutOfBounds 0 0), E) \<and>
      PopBack E = (Inl (OutOfBounds SIZE_MAX 0), E))"
  by (simp add: Get_def subscript_def Erase_def Swap_def Insert_def Front_def Back_def
      PopFront_def PopBack_def IsValidIndex_def throw_def size_sub_def SIZE_MAX_def)

theorem out_of_range_raises_witness:
  "Get (List_of [10, 20, 30 :: int]) 3 = Inl (OutOfBounds 3 3) \<and>
   subscript (List_of [10, 20, 30 :: int]) 3 = Inl (OutOfBounds 3 3) \<and>
   Erase 3 (List_of [10, 20, 30 :: int]) = (Inl (OutOfBounds 3 3), List_of [10, 20, 30]) \<and>
   Swap 3 1 (List_of [10, 20, 30 :: int]) = (Inl (OutOfBounds 3 3), List_of [10, 20, 30]) \<and>
   Swap 1 3 (List_of [10, 20, 30 :: int]) = (Inl (OutOfBounds 3 3), List_of [10, 20, 30]) \<and>
   Insert 4 7 (List_of [10, 20, 30 :: int]) = (Inl (OutOfBounds 4 3), List_of [10, 20, 30]) \<and>
   Front (List_empty :: int LinkedList) = Inl (OutOfBounds 0 0) \<and>
   Back (List_empty :: int LinkedList) = Inl (OutOfBounds SIZE_MAX 0) \<and>
   PopFront (List_empty :: int LinkedList) = (Inl (OutOfBounds 0 0), List_empty) \<and>
   PopBack (List_empty :: int LinkedList) = (Inl (OutOfBounds SIZE_MAX 0), List_empty)"
  using out_of_range_raises [of "List_of [10, 20, 30 :: int]" 3 1 4 7 "List_empty :: int LinkedList"]
  by (simp add: lsize_List_of_3 lsize_List_empty)

section \<open>Self-assignment\<close>

text \<open>
  Claim C9. Copy-assigning and move-assigning a list object to itself return at the
  address test and leave every list object and the free store, hence the list's size
  and elements, as they were.
\<close>

theorem self_assignment_no_op:
  "copy_assign this this w = Some (Inr (), w) \<and> move_assign this this w = Some (Inr (), w)"
  by (simp add: copy_assign_def move_assign_def)

section \<open>Runs of the code on concrete lists\<close>

text \<open>
  Claim C1, at the list \<open>[10, 20, 30, 40, 50]\<close>. Index 3 is above \<^verbatim>\<open>size / 2\<close>, so
  \<open>Traverse\<close> walks back from the tail with \<^verbatim>\<open>operator-\<close>, which lands two
  nodes before the one asked for. \<open>Get(3)\<close> reads the element at position 1;
  \<open>Insert(3, 99)\<close> puts 99 at position 1, the size grows by one, and \<open>Get(3)\<close> on
  the result (reached forward from the head) reads 30, not 99.
\<close>

theorem Insert_then_Get_backward_traversal:
  "Get_value (snd (Insert 3 99 (List_of [10, 20, 30, 40, 50 :: int]))) 3 = Inr 30 \<and>
   elements (snd (Insert 3 99 (List_of [10, 20, 30, 40, 50 :: int])))
     = Some (Inr [10, 99, 20, 30, 40, 50]) \<and>
   lsize (snd (Insert 3 99 (List_of [10, 20, 30, 40, 50 :: int]))) = 6 \<and>
   elements (List_of [10, 20, 30, 40, 50 :: int]) = Some (Inr [10, 20, 30, 40, 50]) \<and>
   Get_value (List_of [10, 20, 30, 40, 50 :: int]) 3 = Inr 20"
  by code_simp

text \<open>
  Claim C4, at the empty list. \<^verbatim>\<open>Size - 1\<close> wraps to \<open>SIZE_MAX\<close>, the loop is
  entered and \<^verbatim>\<open>Collection[0]\<close> throws: \<open>IsSorted()\<close> on an empty list does not
  return true.
\<close>

theorem IsSorted_empty_list_throws:
  "List_IsSorted (List_empty :: int LinkedList) = Inl (OutOfBounds 0 0)"
  by (simp add: List_IsSorted_def IsSorted_def IsSorted_loop.simps size_sub_def compare_at_def
      seq_def rd_def List_indexable_def subscript_def IsValidIndex_def List_empty_def)

text \<open>
  With the right subscript taken first, the first comparison of the loop throws as
  well, reporting index 1 in place of index 0.
\<close>

lemma first_comparison_right_first_throws:
  "compare_at_right_first List_indexable GreaterThan 0 1 (List_empty :: int LinkedList) =
     (Inl (OutOfBounds 1 0), List_empty)"
  by (simp add: compare_at_right_first_def seq_def rd_def List_indexable_def subscript_def
      IsValidIndex_def List_empty_def)

text \<open>
  Claim C5, at the list \<open>[1, 2, 3, 4, 5, 6]\<close>. \<open>Reverse\<close> calls \<open>Swap(0, 5)\<close>,
  \<open>Swap(1, 4)\<close> and \<open>Swap(2, 3)\<close>; index 4 is reached backward and resolves to
  the node at position 2. One call gives \<open>[6, 3, 4, 2, 5, 1]\<close>, a second call gives
  \<open>[1, 4, 2, 3, 5, 6]\<close>, which is not the original order.
\<close>

theorem Reverse_twice_six_elements:
  "elements (List_of [1, 2, 3, 4, 5, 6 :: int]) = Some (Inr [1, 2, 3, 4, 5, 6]) \<and>
   elements (snd (Reverse (List_of [1, 2, 3, 4, 5, 6 :: int]))) = Some (Inr [6, 3, 4, 2, 5, 1]) \<and>
   elements (snd (Reverse (snd (Reverse (List_of [1, 2, 3, 4, 5, 6 :: int])))))
     = Some (Inr [1, 4, 2, 3, 5, 6])"
  by code_simp

text \<open>
  Claim C3, at the array \<open>[1, 2]\<close> with the comparer \<open>LessThan\<close>. The pivot is the
  last element 2 and \<open>LessThan 1 2\<close> holds, so by the claim 1 is not moved before the
  pivot. \<open>Partition\<close> compares with \<open>GreaterThan\<close> whatever comparer
  \<open>QuickSort\<close> was given: 1 stays before 2, and the result is not sorted for
  \<open>LessThan\<close>.
\<close>

theorem QuickSort_ignores_comparer:
  "QuickSort Array_indexable 2 LessThan [1, 2] = (Inr (), [1, 2]) \<and>
   LessThan 1 2 \<and>
   IsSorted Array_indexable 2 LessThan [1, 2] = (Inr False, [1, 2])"
  by code_simp



text \<open>
  Claim C2 as stated fails: with the comparer \<open>GreaterOrEqual\<close> the array \<open>[1, 1]\<close>
  is not sorted after \<open>BubbleSort\<close>, since \<open>IsSorted\<close> rejects equal neighbours.
\<close>

theorem sorts_any_comparer_counterexample:
  "fst (IsSorted Array_indexable 2 GreaterOrEqual
          (snd (BubbleSort Array_indexable 2 GreaterOrEqual [1, 1]))) = Inr False"
  by code_simp

text \<open>
  Claim C2, amended. Let the comparer be a strict weak order and let the collection be
  an array of at least \<open>n \<ge> 1\<close> elements, indexed with the bounds check of
  \<^verbatim>\<open>Collection\<close>. Then \<open>BubbleSort\<close> and \<open>MergeSort\<close> with that comparer return
  without an error, \<open>IsSorted\<close> with the same size and comparer returns true on the
  result, and the result holds the same elements as the input, as a multiset. The same
  is true of \<open>QuickSort\<close> with the default comparer \<open>GreaterThan\<close> on linearly
  ordered elements, and with that comparer the three functions return the same array,
  whether or not its elements are distinct.
\<close>

theorem sorts_with_strict_weak_order:
  fixes c :: "'a list" and d :: "'b::linorder list"
  assumes "strict_weak_order Comparer" and "1 \<le> n" and "n \<le> length c"
    and "1 \<le> m" and "m \<le> length d"
  shows
    "(\<exists>c'. BubbleSort Array_indexable n Comparer c = (Inr (), c') \<and>
           IsSorted Array_indexable n Comparer c' = (Inr True, c') \<and> mset c' = mset c) \<and>
     (\<exists>c'. MergeSort Array_indexable n Comparer c = (Inr (), c') \<and>
           IsSorted Array_indexable n Comparer c' = (Inr True, c') \<and> mset c' = mset c) \<and>
     (\<exists>d'. QuickSort Array_indexable m GreaterThan d = (Inr (), d') \<and>
           IsSorted Array_indexable m GreaterThan d' = (Inr True, d') \<and> mset d' = mset d \<and>
           BubbleSort Array_indexable m GreaterThan d = (Inr (), d') \<and>
           MergeSort Array_indexable m GreaterThan d = (Inr (), d'))"
proof (intro conjI)
  from Array_BubbleSort [OF assms(1-3)] obtain c' where
    r: "BubbleSort Array_indexable n Comparer c = (Inr (), c')" and l: "length c' = length c"
    and p: "mset c' = mset c" and o: "in_order Comparer n c'"
    by blast
  from l assms(3) have "n \<le> length c'" by simp
  from Array_IsSorted [OF assms(2) this, of Comparer] o r p
  show "\<exists>c'. BubbleSort Array_indexable n Comparer c = (Inr (), c') \<and>
      IsSorted Array_indexable n Comparer c' = (Inr True, c') \<and> mset c' = mset c"
    by simp
next
  from Array_MergeSort [OF assms(1-3)] obtain c' where
    r: "MergeSort Array_indexable n Comparer c = (Inr (), c')" and l: "length c' = length c"
    and p: "mset c' = mset c" and o: "in_order Comparer n c'"
    by blast
  from l assms(3) have "n \<le> length c'" by simp
  from Array_IsSorted [OF assms(2) this, of Comparer] o r p
  show "\<exists>c'. MergeSort Array_indexable n Comparer c = (Inr (), c') \<and>
      IsSorted Array_indexable n Comparer c' = (Inr True, c') \<and> mset c' = mset c"
    by simp
next
  from Array_QuickSort [OF assms(4,5), of GreaterThan] obtain q where
    rq: "QuickSort Array_indexable m GreaterThan d = (Inr (), q)" and lq: "length q = length d"
    and pq: "mset q = mset d" and fq: "\<forall>i. m \<le> i \<longrightarrow> q ! i = d ! i"
    and oq: "in_order GreaterThan m q"
    by blast
  from Array_BubbleSort [OF swo_GreaterThan assms(4,5)] obtain b where
    rb: "BubbleSort Array_indexable m GreaterThan d = (Inr (), b)" and lb: "length b = length d"
    and pb: "mset b = mset d" and fb: "\<forall>i. m \<le> i \<longrightarrow> b ! i = d ! i"
    and ob: "in_order GreaterThan m b"
    by blast
  from Array_MergeSort [OF swo_GreaterThan assms(4,5)] obtain g where
    rg: "MergeSort Array_indexable m GreaterThan d = (Inr (), g)" and lg: "length g = length d"
    and pg: "mset g = mset d" and fg: "\<forall>i. m \<le> i \<longrightarrow> g ! i = d ! i"
    and og: "in_order GreaterThan m g"
    by blast
  from lq assms(5) have mq: "m \<le> length q" by simp
  from lb assms(5) have mb: "m \<le> length b" by simp
  from lg assms(5) have mg: "m \<le> length g" by simp
  have "b = q"
  proof (rule in_order_unique [OF _ _ mb _ ob oq])
    show "length b = length q" using lb lq by simp
    show "mset b = mset q" using pb pq by simp
    show "b ! i = q ! i" if "m \<le> i" for i using that fb fq by simp
  qed
  moreover have "g = q"
  proof (rule in_order_unique [OF _ _ mg _ og oq])
    show "length g = length q" using lg lq by simp
    show "mset g = mset q" using pg pq by simp
    show "g ! i = q ! i" if "m \<le> i" for i using that fg fq by simp
  qed
  moreover note Array_IsSorted [OF assms(4) mq, of GreaterThan] oq rq pq rb rg
  ultimately
  show "\<exists>d'. QuickSort Array_indexable m GreaterThan d = (Inr (), d') \<and>
      IsSorted Array_indexable m GreaterThan d' = (Inr True, d') \<and> mset d' = mset d \<and>
      BubbleSort Array_indexable m GreaterThan d = (Inr (), d') \<and>
      MergeSort Array_indexable m GreaterThan d = (Inr (), d')"
    by simp
qed

theorem sorts_with_strict_weak_order_witness:
  "strict_weak_order LessThan \<and> (1 :: nat) \<le> 5 \<and> 5 \<le> length [3, 1, 4, 1, 5 :: int] \<and>
   (\<exists>c'. BubbleSort Array_indexable 5 LessThan [3, 1, 4, 1, 5 :: int] = (Inr (), c') \<and>
         IsSorted Array_indexable 5 LessThan c' = (Inr True, c') \<and>
         mset c' = mset [3, 1, 4, 1, 5]) \<and>
   (\<exists>c'. MergeSort Array_indexable 5 LessThan [3, 1, 4, 1, 5 :: int] = (Inr (), c') \<and>
         IsSorted Array_indexable 5 LessThan c' = (Inr True, c') \<and>
         mset c' = mset [3, 1, 4, 1, 5]) \<and>
   (\<exists>d'. QuickSort Array_indexable 5 GreaterThan [3, 1, 4, 1, 5 :: int] = (Inr (), d') \<and>
         IsSorted Array_indexable 5 GreaterThan d' = (Inr True, d') \<and>
         mset d' = mset [3, 1, 4, 1, 5] \<and>
         BubbleSort Array_indexable 5 GreaterThan [3, 1, 4, 1, 5 :: int] = (Inr (), d') \<and>
         MergeSort Array_indexable 5 GreaterThan [3, 1, 4, 1, 5 :: int] = (Inr (), d'))"
proof -
  have swo: "strict_weak_order LessThan"
    by (auto simp: strict_weak_order_def LessThan_def)
  from sorts_with_strict_weak_order
    [OF swo, of 5 "[3, 1, 4, 1, 5 :: int]" 5 "[3, 1, 4, 1, 5 :: int]"] swo
  show ?thesis by simp
qed

end
